theory Spec2Isabelle
  imports Main "HOL-Library.AList" "HOL-Library.Char_ord" "HOL-Library.List_Lexorder"
begin

section \<open>Phylogeny utilities of ALifeStdDev: the model\<close>

text \<open>
  A shallow embedding of \<^verbatim>\<open>ALifeStdDev/phylogeny/utils.py\<close>. A phylogeny is a
  networkx \<^verbatim>\<open>DiGraph\<close>: an insertion-ordered table from node ids to attribute
  dictionaries and an insertion-ordered collection of directed edges.
\<close>

subsection \<open>Python values and errors\<close>

text \<open>
  Attribute values and node ids are Python integers, strings or \<^verbatim>\<open>None\<close>. On these
  \<^verbatim>\<open>==\<close> never raises and is HOL equality; \<^verbatim>\<open><\<close> and \<^verbatim>\<open>>\<close> are defined
  between two integers and between two strings (lexicographically) and raise
  \<^verbatim>\<open>TypeError\<close> for every other pair.
\<close>

datatype pyval = VInt int | VStr string | VNone

text \<open>
  Every \<^verbatim>\<open>raise\<close> of the source and every exception of an indexing or comparison.
  The source raises the plain class \<^verbatim>\<open>Exception\<close> with a message; one constructor
  stands for each message: \<open>MissingAttribute\<close> for "Not all taxa have '..' data",
  \<open>NotFound\<close> for "Failed to find given taxa (..) in phylogeny", \<open>NotAsexual\<close> for
  "Given phylogeny is not asexual", \<open>NotAsexualLineage\<close> for "the given lineage is not
  an asexual lineage", \<open>AttributesNotUniversal\<close> for "given attributes are not universal
  among all taxa along the lineage", \<open>ReservedAttribute\<close> for "'..' is a reserved
  attribute when using this function". \<open>PointlessConcept\<close> is networkx's
  \<^verbatim>\<open>NetworkXPointlessConcept\<close>.
\<close>

datatype error =
    KeyError string
  | NodeKeyError pyval
  | TypeError
  | IndexError
  | MissingAttribute string
  | NotFound pyval
  | NotAsexual
  | NotAsexualLineage
  | AttributesNotUniversal
  | ReservedAttribute string
  | PointlessConcept
  | StopIteration

definition ebind :: "error + 'a \<Rightarrow> ('a \<Rightarrow> error + 'b) \<Rightarrow> error + 'b" where
  "ebind m f = (case m of Inl e \<Rightarrow> Inl e | Inr x \<Rightarrow> f x)"

fun py_gt :: "pyval \<Rightarrow> pyval \<Rightarrow> error + bool" where
  "py_gt (VInt a) (VInt b) = Inr (a > b)"
| "py_gt (VStr a) (VStr b) = Inr (a > b)"
| "py_gt _ _ = Inl TypeError"

fun py_lt :: "pyval \<Rightarrow> pyval \<Rightarrow> error + bool" where
  "py_lt (VInt a) (VInt b) = Inr (a < b)"
| "py_lt (VStr a) (VStr b) = Inr (a < b)"
| "py_lt _ _ = Inl TypeError"

subsection \<open>Dictionaries and graphs\<close>

text \<open>
  A Python dictionary with string keys is an association list in insertion order;
  \<open>d[k]\<close> raises \<^verbatim>\<open>KeyError\<close> on a missing key, \<open>d[k] = v\<close> is \<open>AList.update\<close>
  (in place for a present key, appended for a new one).
\<close>

type_synonym attrs = "(string \<times> pyval) list"

definition getitem :: "(string \<times> 'v) list \<Rightarrow> string \<Rightarrow> error + 'v" where
  "getitem d k = (case map_of d k of None \<Rightarrow> Inl (KeyError k) | Some v \<Rightarrow> Inr v)"

text \<open>
  The graph: \<open>nodes\<close> is the node table (\<^verbatim>\<open>G.nodes\<close>, iterated in insertion order),
  \<open>edges\<close> the edges in insertion order, so that \<^verbatim>\<open>G.successors(n)\<close> and
  \<^verbatim>\<open>G.predecessors(n)\<close> enumerate in networkx's order. The payload \<open>'a\<close> of a node is
  its attribute dictionary (or, where aliasing matters, the address of that dictionary).
\<close>

record 'a graph =
  nodes :: "(pyval \<times> 'a) list"
  edges :: "(pyval \<times> pyval) list"

definition node_ids :: "'a graph \<Rightarrow> pyval list" where
  "node_ids g = map fst (nodes g)"

definition predecessors :: "'a graph \<Rightarrow> pyval \<Rightarrow> pyval list" where
  "predecessors g n = map fst (filter (\<lambda>e. snd e = n) (edges g))"

definition successors :: "'a graph \<Rightarrow> pyval \<Rightarrow> pyval list" where
  "successors g n = map snd (filter (\<lambda>e. fst e = n) (edges g))"

text \<open>\<^verbatim>\<open>G.nodes[n]\<close>: the attribute dictionary of node \<open>n\<close>, \<^verbatim>\<open>KeyError\<close> when absent.\<close>

definition getnode :: "'a graph \<Rightarrow> pyval \<Rightarrow> error + 'a" where
  "getnode g n = (case map_of (nodes g) n of None \<Rightarrow> Inl (NodeKeyError n) | Some a \<Rightarrow> Inr a)"

text \<open>
  The invariants networkx maintains: node ids are unique, an edge is stored once, and
  both endpoints of an edge are nodes.
\<close>

definition wf_graph :: "'a graph \<Rightarrow> bool" where
  "wf_graph g \<longleftrightarrow>
     distinct (node_ids g) \<and> distinct (edges g) \<and>
     list_all (\<lambda>e. fst e \<in> set (node_ids g) \<and> snd e \<in> set (node_ids g)) (edges g)"

subsection \<open>Verification\<close>

definition all_taxa_have_attribute :: "attrs graph \<Rightarrow> string \<Rightarrow> bool" where
  "all_taxa_have_attribute phylogeny attribute =
     list_all (\<lambda>node. map_of (snd node) attribute \<noteq> None) (nodes phylogeny)"

definition all_taxa_have_attributes :: "attrs graph \<Rightarrow> string list \<Rightarrow> bool" where
  "all_taxa_have_attributes phylogeny attribute_list =
     list_all (\<lambda>node. list_all (\<lambda>attribute. map_of (snd node) attribute \<noteq> None) attribute_list)
       (nodes phylogeny)"

definition is_asexual :: "'a graph \<Rightarrow> bool" where
  "is_asexual phylogeny =
     list_all (\<lambda>node. \<not> length (predecessors phylogeny node) > 1) (node_ids phylogeny)"

definition get_root_ids :: "'a graph \<Rightarrow> pyval list" where
  "get_root_ids phylogeny =
     filter (\<lambda>node. length (predecessors phylogeny node) = 0) (node_ids phylogeny)"

definition get_num_roots :: "'a graph \<Rightarrow> nat" where
  "get_num_roots phylogeny = length (get_root_ids phylogeny)"

definition get_leaf_taxa_ids :: "'a graph \<Rightarrow> pyval list" where
  "get_leaf_taxa_ids phylogeny =
     filter (\<lambda>node. length (successors phylogeny node) = 0) (node_ids phylogeny)"

subsection \<open>Extant taxa\<close>

text \<open>
  \<^verbatim>\<open>taxon_is_alive\<close>, with Python's left-to-right, short-circuit evaluation of
  \<^verbatim>\<open>or\<close> and \<^verbatim>\<open>and\<close>. The first disjunct indexes the node with the literal key
  \<^verbatim>\<open>"destruction_time"\<close>, the second with the parameter.
\<close>

definition taxon_is_alive :: "attrs \<Rightarrow> pyval \<Rightarrow> pyval \<Rightarrow> string \<Rightarrow> string \<Rightarrow> error + bool" where
  "taxon_is_alive node time not_destroyed_value destruction_attribute origin_attribute =
     ebind
       (ebind (getitem node ''destruction_time'') (\<lambda>d.
          if d = not_destroyed_value then Inr True
          else ebind (getitem node destruction_attribute) (\<lambda>d'. py_gt d' time)))
       (\<lambda>not_dead.
          if \<not> not_dead then Inr False
          else if time = VStr ''present'' then Inr True
          else ebind (getitem node origin_attribute) (\<lambda>ot. py_lt ot time))"

definition validate_destruction_time :: "attrs graph \<Rightarrow> string \<Rightarrow> error + unit" where
  "validate_destruction_time phylogeny attribute =
     (if \<not> all_taxa_have_attribute phylogeny attribute then Inl (MissingAttribute attribute)
      else Inr ())"

definition validate_origin_time :: "attrs graph \<Rightarrow> string \<Rightarrow> error + unit" where
  "validate_origin_time phylogeny attribute =
     (if \<not> all_taxa_have_attribute phylogeny attribute then Inl (MissingAttribute attribute)
      else Inr ())"

text \<open>The comprehension \<^verbatim>\<open>[x for x in xs if p(x)]\<close> where \<open>p\<close> may raise.\<close>

fun filter_raising :: "('a \<Rightarrow> error + bool) \<Rightarrow> 'a list \<Rightarrow> error + 'a list" where
  "filter_raising p [] = Inr []"
| "filter_raising p (x # xs) =
     ebind (p x) (\<lambda>b. ebind (filter_raising p xs) (\<lambda>ys. Inr (if b then x # ys else ys)))"

definition get_extant_taxa_ids ::
  "attrs graph \<Rightarrow> pyval \<Rightarrow> pyval \<Rightarrow> string \<Rightarrow> string \<Rightarrow> error + pyval list" where
  "get_extant_taxa_ids phylogeny time not_destroyed_value destruction_attribute origin_attribute =
     ebind (validate_destruction_time phylogeny destruction_attribute) (\<lambda>_.
     ebind (if time \<noteq> VStr ''present'' then validate_origin_time phylogeny origin_attribute
            else Inr ()) (\<lambda>_.
     ebind (filter_raising
              (\<lambda>node. taxon_is_alive (snd node) time not_destroyed_value
                        destruction_attribute origin_attribute)
              (nodes phylogeny)) (\<lambda>extant.
     Inr (map fst extant))))"

subsection \<open>Lineages\<close>

text \<open>
  The \<^verbatim>\<open>while True\<close> loops of the source have no bound of their own; the model
  counts loop iterations against \<open>fuel\<close> and answers \<open>None\<close> when the fuel is spent
  before the loop exits. \<open>Some\<close> is the loop's own exit, by \<^verbatim>\<open>return\<close> or
  \<^verbatim>\<open>break\<close>.
\<close>

fun lineage_walk :: "nat \<Rightarrow> 'a graph \<Rightarrow> pyval list \<Rightarrow> bool option" where
  "lineage_walk 0 phylogeny lineage_ids = None"
| "lineage_walk (Suc fuel) phylogeny lineage_ids =
     (let successor_ids = successors phylogeny (last lineage_ids) in
      if length successor_ids > 1 then Some False
      else if length successor_ids = 0 then Some True
      else lineage_walk fuel phylogeny (lineage_ids @ [successor_ids ! 0]))"

definition is_asexual_lineage :: "nat \<Rightarrow> 'a graph \<Rightarrow> bool option" where
  "is_asexual_lineage fuel phylogeny =
     (let lineage_ids = get_root_ids phylogeny in
      if length lineage_ids \<noteq> 1 then Some False
      else lineage_walk fuel phylogeny lineage_ids)"

fun ancestor_walk :: "nat \<Rightarrow> 'a graph \<Rightarrow> pyval list \<Rightarrow> pyval list option" where
  "ancestor_walk 0 phylogeny ids_on_lineage = None"
| "ancestor_walk (Suc fuel) phylogeny ids_on_lineage =
     (let ancestor_ids = predecessors phylogeny (last ids_on_lineage) in
      if length ancestor_ids = 0 then Some ids_on_lineage
      else ancestor_walk fuel phylogeny (ids_on_lineage @ [ancestor_ids ! 0]))"

text \<open>
  Python leaves the iteration order of a set to the hash table behind it. \<open>slot\<close> stands
  for the position of an element in that table: a set built from \<open>xs\<close> is iterated by
  increasing \<open>slot\<close>, each element once.
\<close>

definition set_iteration :: "(pyval \<Rightarrow> nat) \<Rightarrow> pyval list \<Rightarrow> pyval list" where
  "set_iteration slot xs = sort_key slot (remdups xs)"

text \<open>
  \<^verbatim>\<open>phylogeny.subgraph(ids)\<close>: networkx keeps the ids that are nodes of the graph in a set
  (\<^verbatim>\<open>show_nodes\<close>) and answers with a view. The view iterates that set when it has fewer
  than half as many elements as the graph has nodes, and the graph's own node table,
  filtered, otherwise. A node of the view has the payload it has in the graph; the edges
  of the view are the edges of the graph between shown nodes.
\<close>

definition subgraph :: "(pyval \<Rightarrow> nat) \<Rightarrow> 'a graph \<Rightarrow> pyval list \<Rightarrow> 'a graph" where
  "subgraph slot g ids =
     (let shown = filter (\<lambda>n. n \<in> set (node_ids g)) ids;
          shown_order = (if 2 * length (remdups shown) < length (nodes g)
                         then set_iteration slot shown
                         else filter (\<lambda>n. n \<in> set shown) (node_ids g))
      in \<lparr>nodes = List.map_filter (\<lambda>n. map_option (Pair n) (map_of (nodes g) n)) shown_order,
          edges = filter (\<lambda>e. fst e \<in> set shown \<and> snd e \<in> set shown) (edges g)\<rparr>)"

text \<open>
  \<^verbatim>\<open>G.copy()\<close>: a new graph that receives the nodes of \<open>G\<close> in iteration order, each with
  a copy of its attribute dictionary, and then the edges of \<open>G\<close> node by node, the
  successors of a node in the order \<open>G\<close> has them. Here the payload is a value, and the
  copy of a dictionary is an equal dictionary; \<open>copy_in\<close> below is the same function
  on a store of dictionaries.
\<close>

definition copy :: "'a graph \<Rightarrow> 'a graph" where
  "copy g = \<lparr>nodes = nodes g,
             edges = concat (map (\<lambda>u. map (Pair u) (successors g u)) (node_ids g))\<rparr>"

text \<open>
  \<^verbatim>\<open>extract_asexual_lineage\<close>, the graph it returns with the payloads of the nodes as
  values. \<open>slot\<close> is the order in which Python iterates the set of the ids on the lineage,
  a parameter because the language leaves it open. \<open>extract_asexual_lineage_in\<close> below
  is the same function on a store, where the dictionaries of the returned graph are
  objects of their own.
\<close>

definition extract_asexual_lineage ::
  "(pyval \<Rightarrow> nat) \<Rightarrow> nat \<Rightarrow> 'a graph \<Rightarrow> pyval \<Rightarrow> (error + 'a graph) option" where
  "extract_asexual_lineage slot fuel phylogeny taxa_id =
     (if taxa_id \<notin> set (node_ids phylogeny) then Some (Inl (NotFound taxa_id))
      else if \<not> is_asexual phylogeny then Some (Inl NotAsexual)
      else map_option (\<lambda>ids_on_lineage. Inr (copy (subgraph slot phylogeny ids_on_lineage)))
             (ancestor_walk fuel phylogeny [taxa_id]))"

subsection \<open>Abstract lineages\<close>

text \<open>
  The attribute dictionary of a state holds plain values (\<^verbatim>\<open>state_id\<close>, the copied
  attributes, the times), the list \<^verbatim>\<open>node_state\<close> and the dictionary \<^verbatim>\<open>members\<close>
  from taxon ids to the taxa's attribute dictionaries.
\<close>

datatype sval = Val pyval | NodeState "pyval list" | Members "(pyval \<times> attrs) list"

type_synonym sattrs = "(string \<times> sval) list"

text \<open>\<^verbatim>\<open>G.add_node(n)\<close>, \<^verbatim>\<open>G.add_edge(u, v)\<close> and \<^verbatim>\<open>G.nodes[n][k] = v\<close>.\<close>

definition add_node :: "(string \<times> 'v) list graph \<Rightarrow> pyval \<Rightarrow> (string \<times> 'v) list graph" where
  "add_node g n = (if n \<in> set (node_ids g) then g else g\<lparr>nodes := nodes g @ [(n, [])]\<rparr>)"

definition add_edge ::
  "(string \<times> 'v) list graph \<Rightarrow> pyval \<Rightarrow> pyval \<Rightarrow> (string \<times> 'v) list graph" where
  "add_edge g u v =
     (let g' = add_node (add_node g u) v in
      if (u, v) \<in> set (edges g') then g' else g'\<lparr>edges := edges g' @ [(u, v)]\<rparr>)"

definition setattr ::
  "(string \<times> 'v) list graph \<Rightarrow> pyval \<Rightarrow> string \<Rightarrow> 'v \<Rightarrow> error + (string \<times> 'v) list graph" where
  "setattr g n k v =
     (case map_of (nodes g) n of
        None \<Rightarrow> Inl (NodeKeyError n)
      | Some d \<Rightarrow> Inr (g\<lparr>nodes := AList.update n (AList.update k v d) (nodes g)\<rparr>))"

text \<open>\<^verbatim>\<open>[node[attr] for attr in attribute_list]\<close>\<close>

fun project :: "attrs \<Rightarrow> string list \<Rightarrow> error + pyval list" where
  "project node [] = Inr []"
| "project node (attr # rest) =
     ebind (getitem node attr) (\<lambda>v. ebind (project node rest) (\<lambda>vs. Inr (v # vs)))"

text \<open>\<^verbatim>\<open>for attr in attribute_list: abstract_lineage.nodes[state_id][attr] = node[attr]\<close>\<close>

fun copy_attrs :: "attrs \<Rightarrow> string list \<Rightarrow> sattrs graph \<Rightarrow> pyval \<Rightarrow> error + sattrs graph" where
  "copy_attrs node [] abstract_lineage state_id = Inr abstract_lineage"
| "copy_attrs node (attr # rest) abstract_lineage state_id =
     ebind (getitem node attr) (\<lambda>v.
     ebind (setattr abstract_lineage state_id attr (Val v)) (\<lambda>al.
     copy_attrs node rest al state_id))"

text \<open>\<^verbatim>\<open>if track: abstract_lineage.nodes[state_id][key] = node[attr]\<close>\<close>

definition record_time ::
  "bool \<Rightarrow> attrs \<Rightarrow> string \<Rightarrow> sattrs graph \<Rightarrow> pyval \<Rightarrow> string \<Rightarrow> error + sattrs graph" where
  "record_time track node attr abstract_lineage state_id key =
     (if track then ebind (getitem node attr) (\<lambda>v. setattr abstract_lineage state_id key (Val v))
      else Inr abstract_lineage)"

text \<open>Lines 320 to 337: the empty abstract lineage and its state 0, from the root.\<close>

definition open_root_state ::
  "attrs graph \<Rightarrow> string list \<Rightarrow> bool \<Rightarrow> bool \<Rightarrow> string \<Rightarrow> string \<Rightarrow> pyval
     \<Rightarrow> error + sattrs graph" where
  "open_root_state lineage attribute_list track_origin track_destruction
       origin_time_attr destruction_time_attr root_id =
     ebind (setattr (add_node \<lparr>nodes = [], edges = []\<rparr> (VInt 0)) (VInt 0)
              ''state_id'' (Val (VInt 0))) (\<lambda>al1.
     ebind (getnode lineage root_id) (\<lambda>root.
     ebind (project root attribute_list) (\<lambda>node_state.
     ebind (setattr al1 (VInt 0) ''node_state'' (NodeState node_state)) (\<lambda>al2.
     ebind (copy_attrs root attribute_list al2 (VInt 0)) (\<lambda>al3.
     ebind (record_time track_origin root origin_time_attr al3 (VInt 0) ''origin_time'') (\<lambda>al4.
     ebind (record_time track_destruction root destruction_time_attr al4 (VInt 0)
              ''destruction_time'') (\<lambda>al5.
     setattr al5 (VInt 0) ''members'' (Members [(root_id, root)]))))))))"

text \<open>
  Lines 344 to 365: the body of the loop once the successor \<open>lineage_id\<close> is chosen.
  It returns the state id and the abstract lineage after the iteration.
\<close>

definition abstract_step ::
  "attrs graph \<Rightarrow> string list \<Rightarrow> bool \<Rightarrow> bool \<Rightarrow> string \<Rightarrow> string \<Rightarrow> pyval \<Rightarrow> int
     \<Rightarrow> sattrs graph \<Rightarrow> error + (int \<times> sattrs graph)" where
  "abstract_step lineage attribute_list track_origin track_destruction
       origin_time_attr destruction_time_attr lineage_id state_id abstract_lineage =
     ebind (getnode lineage lineage_id) (\<lambda>taxon.
     ebind (project taxon attribute_list) (\<lambda>state.
     ebind (getnode abstract_lineage (VInt state_id)) (\<lambda>current.
     ebind (getitem current ''node_state'') (\<lambda>node_state.
     if node_state = NodeState state then
       ebind (getitem current ''members'') (\<lambda>members.
         case members of
           Members ms \<Rightarrow>
             ebind (setattr abstract_lineage (VInt state_id) ''members''
                      (Members (AList.update lineage_id taxon ms))) (\<lambda>al1.
             ebind (record_time track_destruction taxon destruction_time_attr al1
                      (VInt state_id) ''destruction_time'') (\<lambda>al2.
             Inr (state_id, al2)))
         | _ \<Rightarrow> Inl TypeError)
     else
       (let new_id = state_id + 1 in
        ebind (setattr (add_edge (add_node abstract_lineage (VInt new_id))
                          (VInt (new_id - 1)) (VInt new_id))
                 (VInt new_id) ''state_id'' (Val (VInt new_id))) (\<lambda>al1.
        ebind (project taxon attribute_list) (\<lambda>new_state.
        ebind (setattr al1 (VInt new_id) ''node_state'' (NodeState new_state)) (\<lambda>al2.
        ebind (record_time track_origin taxon origin_time_attr al2 (VInt new_id)
                 ''origin_time'') (\<lambda>al3.
        ebind (copy_attrs taxon attribute_list al3 (VInt new_id)) (\<lambda>al4.
        ebind (setattr al4 (VInt new_id) ''members'' (Members [(lineage_id, taxon)])) (\<lambda>al5.
        Inr (new_id, al5))))))))))))"

fun abstract_walk ::
  "nat \<Rightarrow> attrs graph \<Rightarrow> string list \<Rightarrow> bool \<Rightarrow> bool \<Rightarrow> string \<Rightarrow> string \<Rightarrow> pyval \<Rightarrow> int
     \<Rightarrow> sattrs graph \<Rightarrow> (error + sattrs graph) option" where
  "abstract_walk 0 lineage attribute_list track_origin track_destruction
       origin_time_attr destruction_time_attr lineage_id state_id abstract_lineage = None"
| "abstract_walk (Suc fuel) lineage attribute_list track_origin track_destruction
       origin_time_attr destruction_time_attr lineage_id state_id abstract_lineage =
     (let successor_ids = successors lineage lineage_id in
      if length successor_ids = 0 then Some (Inr abstract_lineage)
      else
        (case abstract_step lineage attribute_list track_origin track_destruction
                origin_time_attr destruction_time_attr (successor_ids ! 0) state_id
                abstract_lineage of
           Inl e \<Rightarrow> Some (Inl e)
         | Inr (state_id', abstract_lineage') \<Rightarrow>
             abstract_walk fuel lineage attribute_list track_origin track_destruction
               origin_time_attr destruction_time_attr (successor_ids ! 0) state_id'
               abstract_lineage'))"

definition abstract_asexual_lineage ::
  "nat \<Rightarrow> attrs graph \<Rightarrow> string list \<Rightarrow> string \<Rightarrow> string \<Rightarrow> (error + sattrs graph) option" where
  "abstract_asexual_lineage fuel lineage attribute_list origin_time_attr destruction_time_attr =
     (case is_asexual_lineage fuel lineage of
        None \<Rightarrow> None
      | Some ok \<Rightarrow>
          if \<not> ok then Some (Inl NotAsexualLineage)
          else if \<not> all_taxa_have_attributes lineage attribute_list
            then Some (Inl AttributesNotUniversal)
          else if ''node_state'' \<in> set attribute_list
            then Some (Inl (ReservedAttribute ''node_state''))
          else if ''members'' \<in> set attribute_list
            then Some (Inl (ReservedAttribute ''members''))
          else if ''state_id'' \<in> set attribute_list
            then Some (Inl (ReservedAttribute ''state_id''))
          else
            (let track_origin = all_taxa_have_attribute lineage origin_time_attr;
                 track_destruction = all_taxa_have_attribute lineage destruction_time_attr
             in case get_root_ids lineage of
                  [] \<Rightarrow> Some (Inl IndexError)
                | root_id # _ \<Rightarrow>
                    (case open_root_state lineage attribute_list track_origin track_destruction
                            origin_time_attr destruction_time_attr root_id of
                       Inl e \<Rightarrow> Some (Inl e)
                     | Inr abstract_lineage \<Rightarrow>
                         abstract_walk fuel lineage attribute_list track_origin
                           track_destruction origin_time_attr destruction_time_attr
                           root_id 0 abstract_lineage)))"

subsection \<open>Roots and leaves as attribute dictionaries\<close>

text \<open>
  \<^verbatim>\<open>get_roots\<close> and \<^verbatim>\<open>get_leaf_taxa\<close> build a dictionary from node ids to
  \<^verbatim>\<open>phylogeny.nodes[node]\<close>, the dictionary object the graph holds, and then write the
  key \<^verbatim>\<open>"id"\<close> into each. To see the aliasing, the graph's nodes carry the addresses
  of their attribute dictionaries and a store maps addresses to dictionaries; networkx
  allocates one dictionary per node.
\<close>

type_synonym addr = nat

record world =
  topology :: "addr graph"
  store :: "addr \<Rightarrow> attrs"

definition wf_world :: "world \<Rightarrow> bool" where
  "wf_world w \<longleftrightarrow> wf_graph (topology w) \<and> distinct (map snd (nodes (topology w)))"

text \<open>\<^verbatim>\<open>for r in roots: roots[r]["id"] = r\<close>\<close>

fun annotate_ids :: "(pyval \<times> addr) list \<Rightarrow> (addr \<Rightarrow> attrs) \<Rightarrow> (addr \<Rightarrow> attrs)" where
  "annotate_ids [] st = st"
| "annotate_ids (r # rest) st =
     annotate_ids rest (st(snd r := AList.update ''id'' (fst r) (st (snd r))))"

definition get_roots :: "world \<Rightarrow> (pyval \<times> addr) list \<times> world" where
  "get_roots w =
     (let roots = filter (\<lambda>node. length (predecessors (topology w) (fst node)) = 0)
                    (nodes (topology w))
      in (roots, w\<lparr>store := annotate_ids roots (store w)\<rparr>))"

definition get_leaf_taxa :: "world \<Rightarrow> (pyval \<times> addr) list \<times> world" where
  "get_leaf_taxa w =
     (let extant = filter (\<lambda>node. length (successors (topology w) (fst node)) = 0)
                     (nodes (topology w))
      in (extant, w\<lparr>store := annotate_ids extant (store w)\<rparr>))"

subsection \<open>The extracted lineage as a copy\<close>

text \<open>
  \<^verbatim>\<open>G.copy()\<close> on the store: every node of \<open>G\<close> gets a new dictionary
  (\<^verbatim>\<open>d.copy()\<close>) at an address that is not in use, holding what the node's dictionary
  holds; the dictionaries of \<open>G\<close> stay as they are. The addresses in use are those of
  the nodes of the graph the world holds.
\<close>

definition next_free :: "world \<Rightarrow> addr" where
  "next_free w = Suc (fold max (map snd (nodes (topology w))) 0)"

definition copy_in :: "world \<Rightarrow> addr graph \<Rightarrow> world" where
  "copy_in w g =
     (let free = next_free w; k = length (nodes g) in
      \<lparr>topology = \<lparr>nodes = zip (node_ids g) [free ..< free + k], edges = edges (copy g)\<rparr>,
       store = (\<lambda>a. if free \<le> a \<and> a < free + k then store w (snd (nodes g ! (a - free)))
                    else store w a)\<rparr>)"

text \<open>
  \<^verbatim>\<open>extract_asexual_lineage\<close> on a world: the topology of the result is the returned
  graph, its store is the store after the call, in which the graph passed in still has
  its dictionaries at their addresses.
\<close>

definition extract_asexual_lineage_in ::
  "(pyval \<Rightarrow> nat) \<Rightarrow> nat \<Rightarrow> world \<Rightarrow> pyval \<Rightarrow> (error + world) option" where
  "extract_asexual_lineage_in slot fuel w taxa_id =
     (if taxa_id \<notin> set (node_ids (topology w)) then Some (Inl (NotFound taxa_id))
      else if \<not> is_asexual (topology w) then Some (Inl NotAsexual)
      else map_option
             (\<lambda>ids_on_lineage. Inr (copy_in w (subgraph slot (topology w) ids_on_lineage)))
             (ancestor_walk fuel (topology w) [taxa_id]))"

subsection \<open>Connectivity\<close>

text \<open>
  \<^verbatim>\<open>has_single_root\<close> and \<^verbatim>\<open>get_num_independent_phylogenies\<close> wrap networkx's
  \<^verbatim>\<open>is_weakly_connected\<close> and \<^verbatim>\<open>number_weakly_connected_components\<close>. In networkx,
  \<^verbatim>\<open>weakly_connected_components\<close> goes through the nodes and, for each node not seen
  so far, yields the nodes a breadth-first search reaches along edges taken in both
  directions; \<^verbatim>\<open>number_weakly_connected_components\<close> counts what it yields;
  \<^verbatim>\<open>is_weakly_connected\<close> raises \<^verbatim>\<open>NetworkXPointlessConcept\<close> on a graph with no
  nodes and otherwise compares the size of the first component with the number of nodes.
  The search adds at least one node per level, so as many levels as the graph has nodes
  exhaust it.
\<close>

definition neighbours :: "'a graph \<Rightarrow> pyval \<Rightarrow> pyval list" where
  "neighbours g v = successors g v @ predecessors g v"

fun plain_bfs :: "nat \<Rightarrow> 'a graph \<Rightarrow> pyval list \<Rightarrow> pyval list \<Rightarrow> pyval list" where
  "plain_bfs 0 g seen thislevel = seen"
| "plain_bfs (Suc k) g seen thislevel =
     (if thislevel = [] then seen
      else
        (let nextlevel =
               remdups (filter (\<lambda>w. w \<notin> set seen) (concat (map (neighbours g) thislevel)))
         in plain_bfs k g (seen @ nextlevel) nextlevel))"

fun wcc_from :: "'a graph \<Rightarrow> pyval list \<Rightarrow> pyval list \<Rightarrow> pyval list list" where
  "wcc_from g seen [] = []"
| "wcc_from g seen (v # vs) =
     (if v \<in> set seen then wcc_from g seen vs
      else
        (let c = plain_bfs (length (nodes g)) g [v] [v]
         in c # wcc_from g (seen @ c) vs))"

definition weakly_connected_components :: "'a graph \<Rightarrow> pyval list list" where
  "weakly_connected_components g = wcc_from g [] (node_ids g)"

definition number_weakly_connected_components :: "'a graph \<Rightarrow> nat" where
  "number_weakly_connected_components g = length (weakly_connected_components g)"

definition is_weakly_connected :: "'a graph \<Rightarrow> error + bool" where
  "is_weakly_connected g =
     (if length (nodes g) = 0 then Inl PointlessConcept
      else
        (case weakly_connected_components g of
           [] \<Rightarrow> Inl StopIteration
         | c # _ \<Rightarrow> Inr (length c = length (nodes g))))"

definition has_single_root :: "'a graph \<Rightarrow> error + bool" where
  "has_single_root phylogeny = is_weakly_connected phylogeny"

definition get_num_independent_phylogenies :: "'a graph \<Rightarrow> nat" where
  "get_num_independent_phylogenies phylogeny = number_weakly_connected_components phylogeny"

subsection \<open>Notions used to state the properties of abstract lineages\<close>

text \<open>The \<^verbatim>\<open>members\<close> dictionary of a state, as a list of taxon ids with their attributes.\<close>

definition state_members :: "sattrs \<Rightarrow> (pyval \<times> attrs) list" where
  "state_members st = (case map_of st ''members'' of Some (Members ms) \<Rightarrow> ms | _ \<Rightarrow> [])"

text \<open>
  The invariant of the loop of \<^verbatim>\<open>abstract_asexual_lineage\<close>: the abstract lineage has
  the states \<open>0, \<dots>, state_id\<close> in this order, linked consecutively; \<open>groups\<close> lists
  their members; the last state is the open one and its \<^verbatim>\<open>node_state\<close> is the
  projection of its first member.
\<close>

definition abs_inv ::
  "string list \<Rightarrow> sattrs graph \<Rightarrow> int \<Rightarrow> (pyval \<times> attrs) list list \<Rightarrow> bool" where
  "abs_inv attribute_list abstract_lineage state_id groups \<longleftrightarrow>
     (\<exists>ns st gs ms.
        abstract_lineage =
          \<lparr>nodes = ns @ [(VInt state_id, st)],
           edges = map (\<lambda>k. (VInt k, VInt (k + 1))) [0..state_id - 1]\<rparr> \<and>
        groups = gs @ [ms] \<and> 0 \<le> state_id \<and>
        map fst ns = map VInt [0..state_id - 1] \<and>
        map (\<lambda>n. state_members (snd n)) ns = gs \<and> state_members st = ms \<and>
        map (\<lambda>n. map_of (snd n) ''state_id'') ns
          = map (\<lambda>k. Some (Val (VInt k))) [0..state_id - 1] \<and>
        map_of st ''state_id'' = Some (Val (VInt state_id)) \<and>
        list_all (\<lambda>m. m \<noteq> []) groups \<and>
        (\<exists>ks. project (snd (hd ms)) attribute_list = Inr ks \<and>
              map_of st ''node_state'' = Some (NodeState ks)))"

text \<open>
  What the loop is meant to compute, in the words of its comments: a taxon whose
  projection over \<open>attribute_list\<close> equals that of the open state (the projection of the
  state's first member) joins the open state; any other taxon opens a new state.
\<close>

definition extend_groups ::
  "string list \<Rightarrow> (pyval \<times> attrs) list list \<Rightarrow> pyval \<times> attrs
     \<Rightarrow> (pyval \<times> attrs) list list" where
  "extend_groups attribute_list groups taxon =
     (if project (snd (hd (last groups))) attribute_list = project (snd taxon) attribute_list
      then butlast groups @ [last groups @ [taxon]]
      else groups @ [[taxon]])"

text \<open>
  The taxa met from \<open>lineage_id\<close> on by following the first successor, with their
  attribute dictionaries, up to the first taxon without a successor.
\<close>

fun lineage_chain :: "nat \<Rightarrow> attrs graph \<Rightarrow> pyval \<Rightarrow> (pyval \<times> attrs) list option" where
  "lineage_chain 0 lineage lineage_id = None"
| "lineage_chain (Suc fuel) lineage lineage_id =
     (case map_of (nodes lineage) lineage_id of
        None \<Rightarrow> None
      | Some taxon \<Rightarrow>
          (let successor_ids = successors lineage lineage_id in
           if length successor_ids = 0 then Some [(lineage_id, taxon)]
           else map_option (Cons (lineage_id, taxon))
                  (lineage_chain fuel lineage (successor_ids ! 0))))"

section \<open>Claims\<close>

text \<open>
  C1. With \<^verbatim>\<open>time="present"\<close> and every taxon carrying the destruction attribute,
  \<^verbatim>\<open>get_extant_taxa_ids\<close> should return the taxa whose destruction value is the
  sentinel, without raising. On a phylogeny with one live taxon and one taxon destroyed
  at time 10 the call raises \<^verbatim>\<open>TypeError\<close> instead: the destroyed taxon's value is
  compared with the string \<^verbatim>\<open>"present"\<close>.
\<close>

theorem C1_present_raises_on_destroyed_taxon:
  "all_taxa_have_attribute
     \<lparr>nodes = [(VInt 1, [(''destruction_time'', VStr ''none'')]),
               (VInt 2, [(''destruction_time'', VInt 10)])],
      edges = [(VInt 1, VInt 2)]\<rparr> ''destruction_time''
   \<and> get_extant_taxa_ids
       \<lparr>nodes = [(VInt 1, [(''destruction_time'', VStr ''none'')]),
                 (VInt 2, [(''destruction_time'', VInt 10)])],
        edges = [(VInt 1, VInt 2)]\<rparr>
       (VStr ''present'') (VStr ''none'') ''destruction_time'' ''origin_time''
     = Inl TypeError"
  by (simp add: all_taxa_have_attribute_def get_extant_taxa_ids_def
      validate_destruction_time_def taxon_is_alive_def getitem_def ebind_def)

text \<open>
  C2. The sentinel comparison should read the caller's \<^verbatim>\<open>destruction_attribute\<close>. It
  reads the literal key \<^verbatim>\<open>"destruction_time"\<close>: with \<^verbatim>\<open>destruction_attribute="death"\<close>
  a taxon that has only \<^verbatim>\<open>death\<close> raises \<^verbatim>\<open>KeyError\<close>, and a taxon destroyed at 5
  under \<^verbatim>\<open>death\<close> whose unrelated \<^verbatim>\<open>destruction_time\<close> is the sentinel is reported
  alive at time 10.
\<close>

theorem C2_sentinel_reads_literal_key:
  "taxon_is_alive [(''death'', VStr ''none'')] (VStr ''present'') (VStr ''none'')
       ''death'' ''origin_time'' = Inl (KeyError ''destruction_time'')
   \<and> taxon_is_alive
       [(''origin_time'', VInt 1), (''death'', VInt 5), (''destruction_time'', VStr ''none'')]
       (VInt 10) (VStr ''none'') ''death'' ''origin_time'' = Inr True"
  by (simp add: taxon_is_alive_def getitem_def ebind_def)

text \<open>
  C3. When destruction times are tracked, every state should carry
  \<^verbatim>\<open>destruction_time\<close>, the value of its last member. A state opened inside the loop
  gets none (lines 353 to 365 never write it); it appears only once a second taxon joins
  the state. On the chain A, B with different traits and destruction times 5 and 9,
  state 0 has \<^verbatim>\<open>destruction_time\<close> 5 and state 1 has no such key.
\<close>

theorem C3_new_state_lacks_destruction_time:
  "all_taxa_have_attribute
     \<lparr>nodes = [(VStr ''A'', [(''trait'', VStr ''x''), (''destruction_time'', VInt 5)]),
               (VStr ''B'', [(''trait'', VStr ''y''), (''destruction_time'', VInt 9)])],
      edges = [(VStr ''A'', VStr ''B'')]\<rparr> ''destruction_time''
   \<and> abstract_asexual_lineage 2
       \<lparr>nodes = [(VStr ''A'', [(''trait'', VStr ''x''), (''destruction_time'', VInt 5)]),
                 (VStr ''B'', [(''trait'', VStr ''y''), (''destruction_time'', VInt 9)])],
        edges = [(VStr ''A'', VStr ''B'')]\<rparr>
       [''trait''] ''origin_time'' ''destruction_time''
     = Some (Inr
        \<lparr>nodes =
           [(VInt 0,
             [(''state_id'', Val (VInt 0)),
              (''node_state'', NodeState [VStr ''x'']),
              (''trait'', Val (VStr ''x'')),
              (''destruction_time'', Val (VInt 5)),
              (''members'',
               Members [(VStr ''A'', [(''trait'', VStr ''x''), (''destruction_time'', VInt 5)])])]),
            (VInt 1,
             [(''state_id'', Val (VInt 1)),
              (''node_state'', NodeState [VStr ''y'']),
              (''trait'', Val (VStr ''y'')),
              (''members'',
               Members [(VStr ''B'', [(''trait'', VStr ''y''), (''destruction_time'', VInt 9)])])])],
         edges = [(VInt 0, VInt 1)]\<rparr>)"
  by code_simp

subsection \<open>Annotating roots and leaves\<close>

lemma annotate_ids_other: "a \<notin> snd ` set rs \<Longrightarrow> annotate_ids rs st a = st a"
  by (induction rs arbitrary: st) auto

lemma annotate_ids_hit:
  "distinct (map snd rs) \<Longrightarrow> (n, a) \<in> set rs \<Longrightarrow>
   annotate_ids rs st a = AList.update ''id'' n (st a)"
proof (induction rs arbitrary: st)
  case Nil
  then show ?case by simp
next
  case (Cons r rs)
  show ?case
  proof (cases "r = (n, a)")
    case True
    with Cons.prems have "a \<notin> snd ` set rs" by auto
    with True show ?thesis by (simp add: annotate_ids_other)
  next
    case False
    with Cons.prems have in_rs: "(n, a) \<in> set rs" by auto
    then have "a \<in> snd ` set rs" by force
    moreover have "snd r \<notin> snd ` set rs" using Cons.prems by simp
    ultimately have "snd r \<noteq> a" by auto
    with Cons.IH[OF _ in_rs] Cons.prems show ?thesis by simp
  qed
qed

lemma distinct_map_filter_snd: "distinct (map f xs) \<Longrightarrow> distinct (map f (filter P xs))"
  by (induction xs) auto

lemma annotate_frame:
  assumes "distinct (map snd xs)"
  shows "(\<forall>(n, a) \<in> set (filter P xs).
             annotate_ids (filter P xs) st a = AList.update ''id'' n (st a)
           \<and> map_of (annotate_ids (filter P xs) st a) = (map_of (st a))(''id'' \<mapsto> n))
       \<and> (\<forall>a. a \<notin> snd ` set (filter P xs) \<longrightarrow> annotate_ids (filter P xs) st a = st a)"
proof -
  have d: "distinct (map snd (filter P xs))"
    using assms by (rule distinct_map_filter_snd)
  show ?thesis
    using annotate_ids_hit[OF d] annotate_ids_other[of _ "filter P xs"]
    by (auto simp: update_conv')
qed

text \<open>
  C7. \<^verbatim>\<open>get_roots\<close> and \<^verbatim>\<open>get_leaf_taxa\<close> return, for the selected nodes, the
  addresses of the dictionaries the graph itself holds. After the call the topology is
  the same; the dictionary of every returned node is the old one with \<^verbatim>\<open>id\<close> set to
  the node's id (all other keys as before), and every other dictionary is untouched.
\<close>

theorem C7_roots_and_leaves_annotate_in_place:
  assumes "wf_world w"
  shows "fst (get_roots w) =
           filter (\<lambda>node. predecessors (topology w) (fst node) = []) (nodes (topology w))
       \<and> topology (snd (get_roots w)) = topology w
       \<and> (\<forall>(n, a) \<in> set (fst (get_roots w)).
             store (snd (get_roots w)) a = AList.update ''id'' n (store w a)
           \<and> map_of (store (snd (get_roots w)) a) = (map_of (store w a))(''id'' \<mapsto> n))
       \<and> (\<forall>a. a \<notin> snd ` set (fst (get_roots w)) \<longrightarrow> store (snd (get_roots w)) a = store w a)
       \<and> fst (get_leaf_taxa w) =
           filter (\<lambda>node. successors (topology w) (fst node) = []) (nodes (topology w))
       \<and> topology (snd (get_leaf_taxa w)) = topology w
       \<and> (\<forall>(n, a) \<in> set (fst (get_leaf_taxa w)).
             store (snd (get_leaf_taxa w)) a = AList.update ''id'' n (store w a)
           \<and> map_of (store (snd (get_leaf_taxa w)) a) = (map_of (store w a))(''id'' \<mapsto> n))
       \<and> (\<forall>a. a \<notin> snd ` set (fst (get_leaf_taxa w)) \<longrightarrow>
             store (snd (get_leaf_taxa w)) a = store w a)"
proof -
  have d: "distinct (map snd (nodes (topology w)))"
    using assms by (simp add: wf_world_def)
  show ?thesis
    using annotate_frame[OF d, of "\<lambda>node. length (predecessors (topology w) (fst node)) = 0" "store w"]
      annotate_frame[OF d, of "\<lambda>node. length (successors (topology w) (fst node)) = 0" "store w"]
    by (auto simp add: get_roots_def get_leaf_taxa_def Let_def update_conv')
qed

theorem C7_roots_and_leaves_witness:
  "let w = \<lparr>topology = \<lparr>nodes = [(VStr ''A'', 0), (VStr ''B'', 1), (VStr ''C'', 2)],
                          edges = [(VStr ''A'', VStr ''B''), (VStr ''A'', VStr ''C'')]\<rparr>,
             store = (\<lambda>a. if a = 0 then [(''origin_time'', VInt 1)]
                          else if a = 1 then [(''id'', VInt 7), (''origin_time'', VInt 2)]
                          else [(''origin_time'', VInt 3)])\<rparr>
   in wf_world w
    \<and> fst (get_roots w) = [(VStr ''A'', 0)]
    \<and> topology (snd (get_roots w)) = topology w
    \<and> map (store (snd (get_roots w))) [0, 1, 2] =
        [[(''origin_time'', VInt 1), (''id'', VStr ''A'')],
         [(''id'', VInt 7), (''origin_time'', VInt 2)],
         [(''origin_time'', VInt 3)]]
    \<and> fst (get_leaf_taxa w) = [(VStr ''B'', 1), (VStr ''C'', 2)]
    \<and> topology (snd (get_leaf_taxa w)) = topology w
    \<and> map (store (snd (get_leaf_taxa w))) [0, 1, 2] =
        [[(''origin_time'', VInt 1)],
         [(''id'', VStr ''B''), (''origin_time'', VInt 2)],
         [(''origin_time'', VInt 3), (''id'', VStr ''C'')]]"
proof -
  define w where "w = \<lparr>topology = \<lparr>nodes = [(VStr ''A'', 0::nat), (VStr ''B'', 1), (VStr ''C'', 2)],
                          edges = [(VStr ''A'', VStr ''B''), (VStr ''A'', VStr ''C'')]\<rparr>,
             store = (\<lambda>a::nat. if a = 0 then [(''origin_time'', VInt 1)]
                          else if a = 1 then [(''id'', VInt 7), (''origin_time'', VInt 2)]
                          else [(''origin_time'', VInt 3)])\<rparr>"
  have wf: "wf_world w"
    by (simp add: w_def wf_world_def wf_graph_def node_ids_def)
  have st: "store w 0 = [(''origin_time'', VInt 1)]"
    "store w (Suc 0) = [(''id'', VInt 7), (''origin_time'', VInt 2)]"
    "store w 2 = [(''origin_time'', VInt 3)]"
    "nodes (topology w) = [(VStr ''A'', 0::nat), (VStr ''B'', 1), (VStr ''C'', 2)]"
    by (simp_all add: w_def)
  have p: "predecessors (topology w) (VStr ''A'') = []"
    "predecessors (topology w) (VStr ''B'') \<noteq> []"
    "predecessors (topology w) (VStr ''C'') \<noteq> []"
    "successors (topology w) (VStr ''A'') \<noteq> []"
    "successors (topology w) (VStr ''B'') = []"
    "successors (topology w) (VStr ''C'') = []"
    by (simp_all add: w_def predecessors_def successors_def)
  from C7_roots_and_leaves_annotate_in_place[OF wf] have "wf_world w
    \<and> fst (get_roots w) = [(VStr ''A'', 0)]
    \<and> topology (snd (get_roots w)) = topology w
    \<and> map (store (snd (get_roots w))) [0, 1, 2] =
        [[(''origin_time'', VInt 1), (''id'', VStr ''A'')],
         [(''id'', VInt 7), (''origin_time'', VInt 2)],
         [(''origin_time'', VInt 3)]]
    \<and> fst (get_leaf_taxa w) = [(VStr ''B'', 1), (VStr ''C'', 2)]
    \<and> topology (snd (get_leaf_taxa w)) = topology w
    \<and> map (store (snd (get_leaf_taxa w))) [0, 1, 2] =
        [[(''origin_time'', VInt 1)],
         [(''id'', VStr ''B''), (''origin_time'', VInt 2)],
         [(''origin_time'', VInt 3), (''id'', VStr ''C'')]]"
    using wf by (auto simp add: st p)
  then show ?thesis by (simp add: w_def Let_def)
qed

subsection \<open>Connectivity\<close>

lemma wf_graph_edge_nodes:
  "wf_graph g \<Longrightarrow> (u, v) \<in> set (edges g) \<Longrightarrow> u \<in> set (node_ids g) \<and> v \<in> set (node_ids g)"
  by (auto simp: wf_graph_def list_all_iff)

lemma set_predecessors: "set (predecessors g n) = {u. (u, n) \<in> set (edges g)}"
  by (force simp: predecessors_def)

lemma set_successors: "set (successors g n) = {v. (n, v) \<in> set (edges g)}"
  by (force simp: successors_def)

lemma set_neighbours:
  "set (neighbours g n) = {v. (n, v) \<in> set (edges g) \<or> (v, n) \<in> set (edges g)}"
  by (auto simp: neighbours_def set_predecessors set_successors)

lemma plain_bfs_distinct:
  "distinct seen \<Longrightarrow> distinct (plain_bfs k g seen lvl)"
proof (induction k arbitrary: seen lvl)
  case 0
  then show ?case by simp
next
  case (Suc k)
  let ?nxt = "remdups (filter (\<lambda>w. w \<notin> set seen) (concat (map (neighbours g) lvl)))"
  have "distinct (seen @ ?nxt)" using Suc.prems by auto
  from Suc.IH[OF this] Suc.prems show ?case by (simp add: Let_def)
qed

lemma plain_bfs_keeps_seen: "set seen \<subseteq> set (plain_bfs k g seen lvl)"
proof (induction k arbitrary: seen lvl)
  case 0
  then show ?case by simp
next
  case (Suc k)
  show ?case
  proof (cases "lvl = []")
    case True
    then show ?thesis by simp
  next
    case False
    let ?nxt = "remdups (filter (\<lambda>w. w \<notin> set seen) (concat (map (neighbours g) lvl)))"
    have "set (seen @ ?nxt) \<subseteq> set (plain_bfs k g (seen @ ?nxt) ?nxt)" by (rule Suc.IH)
    with False show ?thesis by (simp add: Let_def)
  qed
qed

lemma plain_bfs_within_nodes:
  assumes "wf_graph g"
  shows "set seen \<subseteq> set (node_ids g) \<Longrightarrow> set lvl \<subseteq> set (node_ids g) \<Longrightarrow>
         set (plain_bfs k g seen lvl) \<subseteq> set (node_ids g)"
proof (induction k arbitrary: seen lvl)
  case 0
  then show ?case by simp
next
  case (Suc k)
  let ?nxt = "remdups (filter (\<lambda>w. w \<notin> set seen) (concat (map (neighbours g) lvl)))"
  have nxt: "set ?nxt \<subseteq> set (node_ids g)"
    using wf_graph_edge_nodes[OF assms] by (auto simp: set_neighbours)
  with Suc.prems have "set (seen @ ?nxt) \<subseteq> set (node_ids g)" by simp
  from Suc.IH[OF this nxt] Suc.prems show ?case by (simp add: Let_def)
qed

lemma wcc_from_Nil: "wcc_from g seen vs = [] \<longleftrightarrow> set vs \<subseteq> set seen"
  by (induction vs arbitrary: seen) (auto simp: Let_def)

lemma closed_contains_reach:
  assumes v: "v \<in> S"
    and cl: "\<forall>x\<in>S. set (neighbours g x) \<subseteq> S"
    and r: "(v, w) \<in> (set (edges g) \<union> (set (edges g))\<inverse>)\<^sup>*"
  shows "w \<in> S"
  using r
proof (induction rule: rtrancl_induct)
  case base
  then show ?case by (rule v)
next
  case (step y z)
  then have "z \<in> set (neighbours g y)" by (auto simp: set_neighbours)
  with cl step.IH show ?case by blast
qed

lemma plain_bfs_reach:
  assumes wf: "wf_graph g"
  shows "distinct seen \<Longrightarrow> set seen \<subseteq> set (node_ids g) \<Longrightarrow> set lvl \<subseteq> set seen \<Longrightarrow>
     (\<forall>x\<in>set seen - set lvl. set (neighbours g x) \<subseteq> set seen) \<Longrightarrow>
     v \<in> set seen \<Longrightarrow>
     set seen \<subseteq> {w. (v, w) \<in> (set (edges g) \<union> (set (edges g))\<inverse>)\<^sup>*} \<Longrightarrow>
     (lvl \<noteq> [] \<longrightarrow> length (node_ids g) < k + length seen) \<Longrightarrow>
     set (plain_bfs k g seen lvl) = {w. (v, w) \<in> (set (edges g) \<union> (set (edges g))\<inverse>)\<^sup>*}"
proof (induction k arbitrary: seen lvl)
  case 0
  have "length seen \<le> length (node_ids g)"
  proof -
    have "card (set seen) \<le> card (set (node_ids g))"
      using "0.prems"(2) by (simp add: card_mono)
    also have "\<dots> \<le> length (node_ids g)" by (rule card_length)
    finally show ?thesis using "0.prems"(1) by (simp add: distinct_card)
  qed
  with "0.prems"(7) have "lvl = []" by auto
  with "0.prems"(4) have "\<forall>x\<in>set seen. set (neighbours g x) \<subseteq> set seen" by simp
  with closed_contains_reach[OF "0.prems"(5)] "0.prems"(6) show ?case by auto
next
  case (Suc k)
  show ?case
  proof (cases "lvl = []")
    case True
    with Suc.prems(4) have "\<forall>x\<in>set seen. set (neighbours g x) \<subseteq> set seen" by simp
    with closed_contains_reach[OF Suc.prems(5)] Suc.prems(6) True show ?thesis by auto
  next
    case False
    let ?nxt = "remdups (filter (\<lambda>w. w \<notin> set seen) (concat (map (neighbours g) lvl)))"
    have nxt_set: "set ?nxt = (\<Union>x\<in>set lvl. set (neighbours g x)) - set seen" by auto
    have 1: "distinct (seen @ ?nxt)" using Suc.prems(1) by auto
    have nn: "set ?nxt \<subseteq> set (node_ids g)"
      using wf_graph_edge_nodes[OF wf] by (auto simp: set_neighbours)
    have 2: "set (seen @ ?nxt) \<subseteq> set (node_ids g)" using nn Suc.prems(2) by simp
    have 3: "set ?nxt \<subseteq> set (seen @ ?nxt)" by simp
    have 4: "\<forall>x\<in>set (seen @ ?nxt) - set ?nxt. set (neighbours g x) \<subseteq> set (seen @ ?nxt)"
    proof
      fix x assume "x \<in> set (seen @ ?nxt) - set ?nxt"
      then have xs: "x \<in> set seen" by auto
      show "set (neighbours g x) \<subseteq> set (seen @ ?nxt)"
      proof (cases "x \<in> set lvl")
        case True
        then show ?thesis unfolding set_append nxt_set by blast
      next
        case False
        with xs Suc.prems(4) show ?thesis by auto
      qed
    qed
    have 5: "v \<in> set (seen @ ?nxt)" using Suc.prems(5) by simp
    have 6: "set (seen @ ?nxt) \<subseteq> {w. (v, w) \<in> (set (edges g) \<union> (set (edges g))\<inverse>)\<^sup>*}"
    proof -
      have "set ?nxt \<subseteq> {w. (v, w) \<in> (set (edges g) \<union> (set (edges g))\<inverse>)\<^sup>*}"
      proof
        fix w assume "w \<in> set ?nxt"
        then obtain x where x: "x \<in> set lvl" "w \<in> set (neighbours g x)" by auto
        from x(1) Suc.prems(3,6) have "(v, x) \<in> (set (edges g) \<union> (set (edges g))\<inverse>)\<^sup>*" by auto
        moreover from x(2) have "(x, w) \<in> set (edges g) \<union> (set (edges g))\<inverse>"
          by (auto simp: set_neighbours)
        ultimately show "w \<in> {w. (v, w) \<in> (set (edges g) \<union> (set (edges g))\<inverse>)\<^sup>*}"
          by (auto intro: rtrancl_into_rtrancl)
      qed
      with Suc.prems(6) show ?thesis by simp
    qed
    have 7: "?nxt \<noteq> [] \<longrightarrow> length (node_ids g) < k + length (seen @ ?nxt)"
    proof
      assume "?nxt \<noteq> []"
      then have "0 < length ?nxt" by (rule iffD2[OF length_greater_0_conv])
      moreover have "length (node_ids g) < Suc k + length seen"
        using Suc.prems(7) False by blast
      ultimately show "length (node_ids g) < k + length (seen @ ?nxt)"
        unfolding length_append by linarith
    qed
    from Suc.IH[OF 1 2 3 4 5 6 7] False show ?thesis by (simp add: Let_def)
  qed
qed

lemma plain_bfs_component:
  assumes "wf_graph g" and "v \<in> set (node_ids g)"
  shows "set (plain_bfs (length (nodes g)) g [v] [v]) =
           {w. (v, w) \<in> (set (edges g) \<union> (set (edges g))\<inverse>)\<^sup>*}"
  by (rule plain_bfs_reach[OF assms(1)]) (use assms(2) in \<open>simp_all add: node_ids_def\<close>)

text \<open>
  C8. On the graph with no nodes \<^verbatim>\<open>has_single_root\<close> raises networkx's
  \<^verbatim>\<open>NetworkXPointlessConcept\<close> while \<^verbatim>\<open>get_num_independent_phylogenies\<close>
  returns 0, so the two sides are not both defined there.
\<close>

theorem C8_empty_graph_raises:
  "has_single_root (\<lparr>nodes = [], edges = []\<rparr> :: attrs graph) = Inl PointlessConcept
   \<and> get_num_independent_phylogenies (\<lparr>nodes = [], edges = []\<rparr> :: attrs graph) = 0"
  by (simp add: has_single_root_def is_weakly_connected_def get_num_independent_phylogenies_def
      number_weakly_connected_components_def weakly_connected_components_def node_ids_def)

text \<open>
  C8, amended. On every graph with at least one node, \<^verbatim>\<open>has_single_root\<close> returns
  whether \<^verbatim>\<open>get_num_independent_phylogenies\<close> is 1, and that is the case exactly when
  any two nodes are joined by a path that may take edges in either direction.
\<close>

theorem C8_single_root_iff_one_component:
  assumes wf: "wf_graph g" and ne: "nodes g \<noteq> []"
  shows "has_single_root g = Inr (get_num_independent_phylogenies g = 1)
       \<and> (get_num_independent_phylogenies g = 1 \<longleftrightarrow>
            (\<forall>u\<in>set (node_ids g). \<forall>w\<in>set (node_ids g).
               (u, w) \<in> (set (edges g) \<union> (set (edges g))\<inverse>)\<^sup>*))"
proof -
  let ?U = "set (edges g) \<union> (set (edges g))\<inverse>"
  from ne obtain v vs where ids: "node_ids g = v # vs"
    by (cases "nodes g") (auto simp: node_ids_def)
  define c where "c = plain_bfs (length (nodes g)) g [v] [v]"
  have comps: "weakly_connected_components g = c # wcc_from g c vs"
    by (simp add: weakly_connected_components_def ids c_def Let_def)
  have dc: "distinct c" unfolding c_def by (rule plain_bfs_distinct) simp
  have vc: "v \<in> set c" using plain_bfs_keeps_seen[of "[v]"] by (auto simp: c_def)
  have sub: "set c \<subseteq> set (node_ids g)"
    unfolding c_def by (rule plain_bfs_within_nodes[OF wf]) (simp_all add: ids)
  have dn: "distinct (node_ids g)" using wf by (simp add: wf_graph_def)
  have len: "length (nodes g) = length (node_ids g)" by (simp add: node_ids_def)
  have num: "get_num_independent_phylogenies g = 1 \<longleftrightarrow> set vs \<subseteq> set c"
    by (simp add: get_num_independent_phylogenies_def number_weakly_connected_components_def
        comps wcc_from_Nil)
  have size: "length c = length (node_ids g) \<longleftrightarrow> set vs \<subseteq> set c"
  proof
    assume "length c = length (node_ids g)"
    then have "card (set c) = card (set (node_ids g))"
      using dc dn by (simp add: distinct_card)
    with sub have "set c = set (node_ids g)" by (simp add: card_subset_eq)
    then show "set vs \<subseteq> set c" by (auto simp: ids)
  next
    assume "set vs \<subseteq> set c"
    with vc have "set (node_ids g) \<subseteq> set c" by (auto simp: ids)
    with sub have "set c = set (node_ids g)" by auto
    then have "card (set c) = card (set (node_ids g))" by simp
    then show "length c = length (node_ids g)" using dc dn by (simp add: distinct_card)
  qed
  have reach: "set c = {w. (v, w) \<in> ?U\<^sup>*}"
    unfolding c_def by (rule plain_bfs_component[OF wf]) (simp add: ids)
  have sym: "sym ?U" by (auto simp: sym_def)
  have conn: "set vs \<subseteq> set c \<longleftrightarrow>
      (\<forall>u\<in>set (node_ids g). \<forall>w\<in>set (node_ids g). (u, w) \<in> ?U\<^sup>*)"
  proof
    assume a: "set vs \<subseteq> set c"
    show "\<forall>u\<in>set (node_ids g). \<forall>w\<in>set (node_ids g). (u, w) \<in> ?U\<^sup>*"
    proof (intro ballI)
      fix u w assume "u \<in> set (node_ids g)" "w \<in> set (node_ids g)"
      with a vc have "u \<in> set c" "w \<in> set c" by (auto simp: ids)
      then have vu: "(v, u) \<in> ?U\<^sup>*" and vw: "(v, w) \<in> ?U\<^sup>*" by (simp_all add: reach)
      from vu have "(u, v) \<in> ?U\<^sup>*" using sym by (meson sym_rtrancl symD)
      from this vw show "(u, w) \<in> ?U\<^sup>*" by (rule rtrancl_trans)
    qed
  next
    assume a: "\<forall>u\<in>set (node_ids g). \<forall>w\<in>set (node_ids g). (u, w) \<in> ?U\<^sup>*"
    show "set vs \<subseteq> set c"
    proof
      fix w assume "w \<in> set vs"
      with a have "(v, w) \<in> ?U\<^sup>*" by (simp add: ids)
      then show "w \<in> set c" by (simp add: reach)
    qed
  qed
  have "has_single_root g = Inr (get_num_independent_phylogenies g = 1)"
    using ne ids size num
    by (simp add: has_single_root_def is_weakly_connected_def comps len)
  with num conn show ?thesis by simp
qed

theorem C8_single_root_witness:
  "wf_graph (\<lparr>nodes = [(VInt 1, []), (VInt 2, []), (VInt 3, [])],
              edges = [(VInt 1, VInt 3), (VInt 2, VInt 3)]\<rparr> :: attrs graph)
   \<and> nodes (\<lparr>nodes = [(VInt 1, []), (VInt 2, []), (VInt 3, [])],
              edges = [(VInt 1, VInt 3), (VInt 2, VInt 3)]\<rparr> :: attrs graph) \<noteq> []
   \<and> get_num_independent_phylogenies
        (\<lparr>nodes = [(VInt 1, []), (VInt 2, []), (VInt 3, [])],
          edges = [(VInt 1, VInt 3), (VInt 2, VInt 3)]\<rparr> :: attrs graph) = 1
   \<and> has_single_root
        (\<lparr>nodes = [(VInt 1, []), (VInt 2, []), (VInt 3, [])],
          edges = [(VInt 1, VInt 3), (VInt 2, VInt 3)]\<rparr> :: attrs graph) = Inr True
   \<and> get_num_roots
        (\<lparr>nodes = [(VInt 1, []), (VInt 2, []), (VInt 3, [])],
          edges = [(VInt 1, VInt 3), (VInt 2, VInt 3)]\<rparr> :: attrs graph) = 2"
proof -
  let ?g = "\<lparr>nodes = [(VInt 1, []), (VInt 2, []), (VInt 3, [])],
             edges = [(VInt 1, VInt 3), (VInt 2, VInt 3)]\<rparr> :: attrs graph"
  have wf: "wf_graph ?g" by (simp add: wf_graph_def node_ids_def)
  have ne: "nodes ?g \<noteq> []" by simp
  have num: "get_num_independent_phylogenies ?g = 1" by code_simp
  have roots: "get_num_roots ?g = 2"
    by (simp add: get_num_roots_def get_root_ids_def node_ids_def predecessors_def)
  from C8_single_root_iff_one_component[OF wf ne] wf ne num roots show ?thesis by simp
qed

subsection \<open>Walks on acyclic graphs\<close>

lemma predecessors_Nil: "predecessors g n = [] \<longleftrightarrow> (\<forall>u. (u, n) \<notin> set (edges g))"
  using set_predecessors[of g n] by (metis (mono_tags, lifting) empty_iff empty_set mem_Collect_eq equals0I set_empty)

lemma successors_Nil: "successors g n = [] \<longleftrightarrow> (\<forall>v. (n, v) \<notin> set (edges g))"
  using set_successors[of g n] by (metis (mono_tags, lifting) empty_iff empty_set mem_Collect_eq equals0I set_empty)

lemma first_predecessor_edge:
  "predecessors g n \<noteq> [] \<Longrightarrow> (predecessors g n ! 0, n) \<in> set (edges g)"
  using set_predecessors[of g n] nth_mem[of 0 "predecessors g n"] by auto

lemma first_successor_edge:
  "successors g n \<noteq> [] \<Longrightarrow> (n, successors g n ! 0) \<in> set (edges g)"
  using set_successors[of g n] nth_mem[of 0 "successors g n"] by auto

lemma finite_ancestors: "finite {y. (y, x) \<in> (set (edges g))\<^sup>+}"
proof (rule finite_subset)
  show "{y. (y, x) \<in> (set (edges g))\<^sup>+} \<subseteq> fst ` set (edges g)"
    by (force dest: tranclD)
qed simp

lemma finite_descendants: "finite {y. (x, y) \<in> (set (edges g))\<^sup>+}"
proof (rule finite_subset)
  show "{y. (x, y) \<in> (set (edges g))\<^sup>+} \<subseteq> snd ` set (edges g)"
    by (force dest: tranclD2)
qed simp

lemma ancestors_decrease:
  assumes "acyclic (set (edges g))" and "(p, x) \<in> set (edges g)"
  shows "card {y. (y, p) \<in> (set (edges g))\<^sup>+} < card {y. (y, x) \<in> (set (edges g))\<^sup>+}"
proof (rule psubset_card_mono[OF finite_ancestors])
  have "p \<notin> {y. (y, p) \<in> (set (edges g))\<^sup>+}" using assms(1) by (auto simp: acyclic_def)
  moreover have "p \<in> {y. (y, x) \<in> (set (edges g))\<^sup>+}" using assms(2) by auto
  moreover have "{y. (y, p) \<in> (set (edges g))\<^sup>+} \<subseteq> {y. (y, x) \<in> (set (edges g))\<^sup>+}"
    using assms(2) by (auto intro: trancl_into_trancl)
  ultimately show "{y. (y, p) \<in> (set (edges g))\<^sup>+} \<subset> {y. (y, x) \<in> (set (edges g))\<^sup>+}"
    by blast
qed

lemma descendants_decrease:
  assumes "acyclic (set (edges g))" and "(x, s) \<in> set (edges g)"
  shows "card {y. (s, y) \<in> (set (edges g))\<^sup>+} < card {y. (x, y) \<in> (set (edges g))\<^sup>+}"
proof (rule psubset_card_mono[OF finite_descendants])
  have "s \<notin> {y. (s, y) \<in> (set (edges g))\<^sup>+}" using assms(1) by (auto simp: acyclic_def)
  moreover have "s \<in> {y. (x, y) \<in> (set (edges g))\<^sup>+}" using assms(2) by auto
  moreover have "{y. (s, y) \<in> (set (edges g))\<^sup>+} \<subseteq> {y. (x, y) \<in> (set (edges g))\<^sup>+}"
    using assms(2) by (auto intro: trancl_into_trancl2)
  ultimately show "{y. (s, y) \<in> (set (edges g))\<^sup>+} \<subset> {y. (x, y) \<in> (set (edges g))\<^sup>+}"
    by blast
qed

lemma card_less_nodes:
  assumes "S \<subseteq> set (node_ids g)" and "x \<in> set (node_ids g)" and "x \<notin> S"
  shows "card S < length (nodes g)"
proof -
  have "S \<subset> set (node_ids g)" using assms by blast
  then have "card S < card (set (node_ids g))" by (simp add: psubset_card_mono)
  also have "\<dots> \<le> length (node_ids g)" by (rule card_length)
  finally show ?thesis by (simp add: node_ids_def)
qed

lemma ancestors_bound:
  assumes "wf_graph g" and "acyclic (set (edges g))" and "x \<in> set (node_ids g)"
  shows "card {y. (y, x) \<in> (set (edges g))\<^sup>+} < length (nodes g)"
proof (rule card_less_nodes[OF _ assms(3)])
  show "{y. (y, x) \<in> (set (edges g))\<^sup>+} \<subseteq> set (node_ids g)"
    using wf_graph_edge_nodes[OF assms(1)] by (auto elim: converse_tranclE)
  show "x \<notin> {y. (y, x) \<in> (set (edges g))\<^sup>+}" using assms(2) by (auto simp: acyclic_def)
qed

lemma descendants_bound:
  assumes "wf_graph g" and "acyclic (set (edges g))" and "x \<in> set (node_ids g)"
  shows "card {y. (x, y) \<in> (set (edges g))\<^sup>+} < length (nodes g)"
proof (rule card_less_nodes[OF _ assms(3)])
  show "{y. (x, y) \<in> (set (edges g))\<^sup>+} \<subseteq> set (node_ids g)"
    using wf_graph_edge_nodes[OF assms(1)] by (auto elim: tranclE)
  show "x \<notin> {y. (x, y) \<in> (set (edges g))\<^sup>+}" using assms(2) by (auto simp: acyclic_def)
qed

lemma ancestor_walk_terminates:
  assumes "acyclic (set (edges g))"
  shows "card {y. (y, last ids) \<in> (set (edges g))\<^sup>+} < fuel \<Longrightarrow>
         \<exists>r. ancestor_walk fuel g ids = Some r"
proof (induction fuel arbitrary: ids)
  case 0
  then show ?case by simp
next
  case (Suc fuel)
  show ?case
  proof (cases "predecessors g (last ids) = []")
    case True
    then show ?thesis by simp
  next
    case False
    let ?p = "predecessors g (last ids) ! 0"
    from first_predecessor_edge[OF False] ancestors_decrease[OF assms]
    have "card {y. (y, ?p) \<in> (set (edges g))\<^sup>+} < card {y. (y, last ids) \<in> (set (edges g))\<^sup>+}"
      by blast
    with Suc.prems have "card {y. (y, last (ids @ [?p])) \<in> (set (edges g))\<^sup>+} < fuel" by simp
    from Suc.IH[OF this] False show ?thesis by (simp add: Let_def)
  qed
qed

lemma lineage_walk_terminates:
  assumes "acyclic (set (edges g))"
  shows "card {y. (last ids, y) \<in> (set (edges g))\<^sup>+} < fuel \<Longrightarrow>
         \<exists>b. lineage_walk fuel g ids = Some b"
proof (induction fuel arbitrary: ids)
  case 0
  then show ?case by simp
next
  case (Suc fuel)
  show ?case
  proof (cases "successors g (last ids) = []")
    case True
    then show ?thesis by auto
  next
    case False
    let ?s = "successors g (last ids) ! 0"
    from first_successor_edge[OF False] descendants_decrease[OF assms]
    have "card {y. (?s, y) \<in> (set (edges g))\<^sup>+} < card {y. (last ids, y) \<in> (set (edges g))\<^sup>+}"
      by blast
    with Suc.prems have "card {y. (last (ids @ [?s]), y) \<in> (set (edges g))\<^sup>+} < fuel" by simp
    from Suc.IH[OF this] False show ?thesis by (auto simp add: Let_def)
  qed
qed

lemma abstract_walk_terminates:
  assumes "acyclic (set (edges g))"
  shows "card {y. (n, y) \<in> (set (edges g))\<^sup>+} < fuel \<Longrightarrow>
         \<exists>r. abstract_walk fuel g al t_o t_d oa da n sid A = Some r"
proof (induction fuel arbitrary: n sid A)
  case 0
  then show ?case by simp
next
  case (Suc fuel)
  show ?case
  proof (cases "successors g n = []")
    case True
    then show ?thesis by simp
  next
    case False
    let ?s = "successors g n ! 0"
    from first_successor_edge[OF False] descendants_decrease[OF assms]
    have "card {y. (?s, y) \<in> (set (edges g))\<^sup>+} < card {y. (n, y) \<in> (set (edges g))\<^sup>+}"
      by blast
    with Suc.prems have "card {y. (?s, y) \<in> (set (edges g))\<^sup>+} < fuel" by simp
    from Suc.IH[OF this] False show ?thesis
      by (auto simp add: Let_def split: sum.splits prod.splits)
  qed
qed

subsection \<open>Termination of the walks\<close>

lemma acyclic_ranked:
  assumes "list_all (\<lambda>e. rank (fst e) < (rank (snd e) :: nat)) es"
  shows "acyclic (set es)"
proof -
  have "acyclic ((set es)\<inverse>)"
  proof (rule acyclicI_order[where f = rank])
    fix a b assume "(a, b) \<in> (set es)\<inverse>"
    hence "(b, a) \<in> set es" by simp
    with assms show "rank b < rank a" by (auto simp: list_all_iff)
  qed
  then show ?thesis by simp
qed

lemma root_in_nodes: "r \<in> set (get_root_ids g) \<Longrightarrow> r \<in> set (node_ids g)"
  by (simp add: get_root_ids_def)

lemma ancestor_walk_mono:
  "ancestor_walk f g ids = Some r \<Longrightarrow> f \<le> f' \<Longrightarrow> ancestor_walk f' g ids = Some r"
proof (induction f arbitrary: f' ids)
  case 0
  then show ?case by simp
next
  case (Suc f)
  then obtain f'' where f': "f' = Suc f''" and le: "f \<le> f''" by (cases f') auto
  show ?case
  proof (cases "predecessors g (last ids) = []")
    case True
    with Suc.prems(1) show ?thesis by (simp add: f')
  next
    case False
    with Suc.prems(1) have "ancestor_walk f g (ids @ [predecessors g (last ids) ! 0]) = Some r"
      by (simp add: Let_def)
    from Suc.IH[OF this le] False show ?thesis by (simp add: f' Let_def)
  qed
qed

lemma lineage_walk_mono:
  "lineage_walk f g ids = Some r \<Longrightarrow> f \<le> f' \<Longrightarrow> lineage_walk f' g ids = Some r"
proof (induction f arbitrary: f' ids)
  case 0
  then show ?case by simp
next
  case (Suc f)
  then obtain f'' where f': "f' = Suc f''" and le: "f \<le> f''" by (cases f') auto
  show ?case
  proof (cases "1 < length (successors g (last ids)) \<or> length (successors g (last ids)) = 0")
    case True
    with Suc.prems(1) show ?thesis by (auto simp add: f' Let_def split: if_splits)
  next
    case False
    with Suc.prems(1) have "lineage_walk f g (ids @ [successors g (last ids) ! 0]) = Some r"
      by (simp add: Let_def)
    from Suc.IH[OF this le] False show ?thesis by (simp add: f' Let_def)
  qed
qed

lemma abstract_walk_mono:
  "abstract_walk f g al t_o t_d oa da n sid A = Some r \<Longrightarrow> f \<le> f' \<Longrightarrow>
   abstract_walk f' g al t_o t_d oa da n sid A = Some r"
proof (induction f arbitrary: f' n sid A)
  case 0
  then show ?case by simp
next
  case (Suc f)
  then obtain f'' where f': "f' = Suc f''" and le: "f \<le> f''" by (cases f') auto
  show ?case
  proof (cases "successors g n = []")
    case True
    with Suc.prems(1) show ?thesis by (simp add: f')
  next
    case False
    show ?thesis
    proof (cases "abstract_step g al t_o t_d oa da (successors g n ! 0) sid A")
      case (Inl e)
      with Suc.prems(1) False show ?thesis by (simp add: f' Let_def)
    next
      case (Inr p)
      obtain sid' A' where p: "p = (sid', A')" by (cases p)
      with Inr Suc.prems(1) False
      have "abstract_walk f g al t_o t_d oa da (successors g n ! 0) sid' A' = Some r"
        by (simp add: Let_def)
      from Suc.IH[OF this le] Inr p False show ?thesis by (simp add: f' Let_def)
    qed
  qed
qed

text \<open>
  C9. On an acyclic graph the three \<^verbatim>\<open>while True\<close> loops exit: the predecessor walk of
  \<^verbatim>\<open>extract_asexual_lineage\<close> and the successor walks of \<^verbatim>\<open>is_asexual_lineage\<close>
  and \<^verbatim>\<open>abstract_asexual_lineage\<close> return within as many iterations as the graph has
  nodes, and more fuel does not change what they return. Every other operation of the
  model is a total function (a traversal of a finite list).
\<close>

theorem C9_walks_terminate_within_node_count:
  fixes g :: "attrs graph"
  assumes wf: "wf_graph g" and ac: "acyclic (set (edges g))" and fuel: "length (nodes g) \<le> fuel"
  shows "(\<exists>r. extract_asexual_lineage slot (length (nodes g)) g taxa_id = Some r
              \<and> extract_asexual_lineage slot fuel g taxa_id = Some r)
       \<and> (\<exists>b. is_asexual_lineage (length (nodes g)) g = Some b
              \<and> is_asexual_lineage fuel g = Some b)
       \<and> (\<exists>r. abstract_asexual_lineage (length (nodes g)) g attribute_list
                  origin_time_attr destruction_time_attr = Some r
              \<and> abstract_asexual_lineage fuel g attribute_list
                  origin_time_attr destruction_time_attr = Some r)"
proof (intro conjI)
  let ?n = "length (nodes g)"
  show "\<exists>r. extract_asexual_lineage slot ?n g taxa_id = Some r
          \<and> extract_asexual_lineage slot fuel g taxa_id = Some r"
  proof (cases "taxa_id \<in> set (node_ids g) \<and> is_asexual g")
    case False
    then show ?thesis by (auto simp: extract_asexual_lineage_def)
  next
    case True
    then have "card {y. (y, last [taxa_id]) \<in> (set (edges g))\<^sup>+} < ?n"
      using ancestors_bound[OF wf ac] by simp
    from ancestor_walk_terminates[OF ac this] obtain ids
      where 1: "ancestor_walk ?n g [taxa_id] = Some ids" by blast
    from ancestor_walk_mono[OF 1 fuel] 1 True show ?thesis
      by (simp add: extract_asexual_lineage_def)
  qed
  have lin: "\<exists>b. is_asexual_lineage ?n g = Some b \<and> is_asexual_lineage fuel g = Some b"
  proof (cases "length (get_root_ids g) = 1")
    case False
    then show ?thesis by (auto simp add: is_asexual_lineage_def)
  next
    case True
    then obtain r where r: "get_root_ids g = [r]" by (cases "get_root_ids g") auto
    then have "r \<in> set (node_ids g)" using root_in_nodes[of r g] by simp
    then have "card {y. (last [r], y) \<in> (set (edges g))\<^sup>+} < ?n"
      using descendants_bound[OF wf ac] by simp
    from lineage_walk_terminates[OF ac this] obtain b
      where 1: "lineage_walk ?n g [r] = Some b" by blast
    from lineage_walk_mono[OF 1 fuel] 1 r show ?thesis
      by (simp add: is_asexual_lineage_def)
  qed
  then show "\<exists>b. is_asexual_lineage ?n g = Some b \<and> is_asexual_lineage fuel g = Some b" .
  from lin obtain b where b: "is_asexual_lineage ?n g = Some b" "is_asexual_lineage fuel g = Some b"
    by blast
  show "\<exists>r. abstract_asexual_lineage ?n g attribute_list origin_time_attr destruction_time_attr
              = Some r
          \<and> abstract_asexual_lineage fuel g attribute_list origin_time_attr destruction_time_attr
              = Some r"
  proof (cases "get_root_ids g")
    case Nil
    then show ?thesis by (simp add: abstract_asexual_lineage_def b Let_def)
  next
    case (Cons r rs)
    then have "r \<in> set (node_ids g)" using root_in_nodes[of r g] by simp
    then have c: "card {y. (r, y) \<in> (set (edges g))\<^sup>+} < ?n"
      using descendants_bound[OF wf ac] by simp
    show ?thesis
    proof (cases "open_root_state g attribute_list (all_taxa_have_attribute g origin_time_attr)
        (all_taxa_have_attribute g destruction_time_attr) origin_time_attr destruction_time_attr r")
      case (Inl e)
      then show ?thesis by (simp add: abstract_asexual_lineage_def b Let_def Cons)
    next
      case (Inr A)
      from abstract_walk_terminates[OF ac c] obtain res where
        1: "abstract_walk ?n g attribute_list (all_taxa_have_attribute g origin_time_attr)
        (all_taxa_have_attribute g destruction_time_attr) origin_time_attr destruction_time_attr r 0 A = Some res"
        by blast
      from abstract_walk_mono[OF 1 fuel] 1 Inr show ?thesis
        by (simp add: abstract_asexual_lineage_def b Let_def Cons)
    qed
  qed
qed

theorem C9_walks_terminate_witness:
  "wf_graph \<lparr>nodes = [(VInt 0, [(''trait'', VInt 7)]), (VInt 1, [(''trait'', VInt 7)]),
                       (VInt 2, [(''trait'', VInt 8)])],
             edges = [(VInt 0, VInt 1), (VInt 1, VInt 2)]\<rparr>
   \<and> acyclic (set (edges \<lparr>nodes = [(VInt 0, [(''trait'', VInt 7)]), (VInt 1, [(''trait'', VInt 7)]),
                                    (VInt 2, [(''trait'', VInt 8)])],
                          edges = [(VInt 0, VInt 1), (VInt 1, VInt 2)]\<rparr>))
   \<and> (\<exists>r. extract_asexual_lineage (\<lambda>_. 0) 3
              \<lparr>nodes = [(VInt 0, [(''trait'', VInt 7)]), (VInt 1, [(''trait'', VInt 7)]),
                        (VInt 2, [(''trait'', VInt 8)])],
               edges = [(VInt 0, VInt 1), (VInt 1, VInt 2)]\<rparr> (VInt 2) = Some r)
   \<and> (\<exists>b. is_asexual_lineage 3
              \<lparr>nodes = [(VInt 0, [(''trait'', VInt 7)]), (VInt 1, [(''trait'', VInt 7)]),
                        (VInt 2, [(''trait'', VInt 8)])],
               edges = [(VInt 0, VInt 1), (VInt 1, VInt 2)]\<rparr> = Some b)
   \<and> (\<exists>r. abstract_asexual_lineage 3
              \<lparr>nodes = [(VInt 0, [(''trait'', VInt 7)]), (VInt 1, [(''trait'', VInt 7)]),
                        (VInt 2, [(''trait'', VInt 8)])],
               edges = [(VInt 0, VInt 1), (VInt 1, VInt 2)]\<rparr>
              [''trait''] ''origin_time'' ''destruction_time'' = Some r)"
proof -
  let ?g = "\<lparr>nodes = [(VInt 0, [(''trait'', VInt 7)]), (VInt 1, [(''trait'', VInt 7)]),
                      (VInt 2, [(''trait'', VInt 8)])],
             edges = [(VInt 0, VInt 1), (VInt 1, VInt 2)]\<rparr> :: attrs graph"
  have wf: "wf_graph ?g" by (simp add: wf_graph_def node_ids_def)
  have ac: "acyclic (set (edges ?g))"
    by (rule acyclic_ranked[where rank = "\<lambda>v. case v of VInt k \<Rightarrow> nat k | _ \<Rightarrow> 0"]) simp
  have n: "length (nodes ?g) \<le> 3" by simp
  from C9_walks_terminate_within_node_count[OF wf ac n, of "\<lambda>_. 0" "VInt 2" "[''trait'']"
      "''origin_time''" "''destruction_time''"] wf ac
  show ?thesis by blast
qed

subsection \<open>Extracted lineages\<close>

lemma asexual_pred_le1:
  assumes "wf_graph g" and "is_asexual g"
  shows "length (predecessors g n) \<le> 1"
proof (cases "n \<in> set (node_ids g)")
  case True
  with assms(2) show ?thesis by (auto simp: is_asexual_def list_all_iff)
next
  case False
  have "predecessors g n = []"
    unfolding predecessors_Nil using wf_graph_edge_nodes[OF assms(1)] False by blast
  then show ?thesis by simp
qed

lemma asexual_unique_pred:
  assumes "wf_graph g" and "is_asexual g" and "(u, n) \<in> set (edges g)" and "(u', n) \<in> set (edges g)"
  shows "u = u'"
proof -
  have "length (predecessors g n) \<le> 1" by (rule asexual_pred_le1[OF assms(1,2)])
  then obtain p where p: "set (predecessors g n) \<subseteq> {p}"
    by (cases "predecessors g n") auto
  from assms(3,4) have "u \<in> set (predecessors g n)" "u' \<in> set (predecessors g n)"
    by (simp_all add: set_predecessors)
  with p show ?thesis by auto
qed

lemma ancestors_or_self_no_pred:
  assumes "predecessors g x = []"
  shows "{y. (y, x) \<in> (set (edges g))\<^sup>*} = {x}"
proof -
  have "y = x" if "(y, x) \<in> (set (edges g))\<^sup>*" for y
    using that assms by (cases rule: rtranclE) (auto simp: predecessors_Nil)
  then show ?thesis by auto
qed

lemma ancestors_or_self_unique_pred:
  assumes "wf_graph g" and "is_asexual g" and "(p, x) \<in> set (edges g)"
  shows "{y. (y, x) \<in> (set (edges g))\<^sup>*} = insert x {y. (y, p) \<in> (set (edges g))\<^sup>*}"
proof -
  have "y = x \<or> (y, p) \<in> (set (edges g))\<^sup>*" if "(y, x) \<in> (set (edges g))\<^sup>*" for y
    using that
  proof (cases rule: rtranclE)
    case base
    then show ?thesis by simp
  next
    case (step z)
    from asexual_unique_pred[OF assms(1,2) step(2) assms(3)] step(1) show ?thesis by simp
  qed
  moreover have "(y, x) \<in> (set (edges g))\<^sup>*" if "(y, p) \<in> (set (edges g))\<^sup>*" for y
    using that assms(3) by (rule rtrancl_into_rtrancl)
  ultimately show ?thesis by auto
qed

lemma ancestor_walk_visits:
  assumes wf: "wf_graph g" and ax: "is_asexual g"
  shows "ancestor_walk fuel g ids = Some r \<Longrightarrow> ids \<noteq> [] \<Longrightarrow>
         set r = set ids \<union> {y. (y, last ids) \<in> (set (edges g))\<^sup>*}"
proof (induction fuel arbitrary: ids)
  case 0
  then show ?case by simp
next
  case (Suc fuel)
  show ?case
  proof (cases "predecessors g (last ids) = []")
    case True
    with Suc.prems ancestors_or_self_no_pred[OF True] show ?thesis by auto
  next
    case False
    let ?p = "predecessors g (last ids) ! 0"
    from False Suc.prems(1) have "ancestor_walk fuel g (ids @ [?p]) = Some r"
      by (simp add: Let_def)
    from Suc.IH[OF this] have "set r = set ids \<union> {?p} \<union> {y. (y, ?p) \<in> (set (edges g))\<^sup>*}"
      by simp
    moreover have "{y. (y, last ids) \<in> (set (edges g))\<^sup>*}
        = insert (last ids) {y. (y, ?p) \<in> (set (edges g))\<^sup>*}"
      by (rule ancestors_or_self_unique_pred[OF wf ax first_predecessor_edge[OF False]])
    moreover have "last ids \<in> set ids" using Suc.prems(2) by simp
    ultimately show ?thesis by auto
  qed
qed

lemma ancestors_comparable:
  assumes wf: "wf_graph g" and ax: "is_asexual g"
    and x: "(x, t) \<in> (set (edges g))\<^sup>*" and y: "(y, t) \<in> (set (edges g))\<^sup>*"
  shows "(x, y) \<in> (set (edges g))\<^sup>* \<or> (y, x) \<in> (set (edges g))\<^sup>*"
  using x
proof (induction rule: converse_rtrancl_induct)
  case base
  with y show ?case by simp
next
  case (step x z)
  from step.IH show ?case
  proof
    assume "(z, y) \<in> (set (edges g))\<^sup>*"
    with step.hyps(1) have "(x, y) \<in> (set (edges g))\<^sup>*"
      by (rule converse_rtrancl_into_rtrancl)
    then show ?thesis by (rule disjI1)
  next
    assume "(y, z) \<in> (set (edges g))\<^sup>*"
    then show ?thesis
    proof (cases rule: rtranclE)
      case base
      with step.hyps(1) have "(x, y) \<in> (set (edges g))\<^sup>*" by blast
      then show ?thesis by (rule disjI1)
    next
      case (step w)
      from asexual_unique_pred[OF wf ax step(2) \<open>(x, z) \<in> set (edges g)\<close>] step(1)
      show ?thesis by simp
    qed
  qed
qed

lemma one_child_among_ancestors:
  assumes wf: "wf_graph g" and ax: "is_asexual g" and ac: "acyclic (set (edges g))"
    and e1: "(n, v1) \<in> set (edges g)" and e2: "(n, v2) \<in> set (edges g)"
    and r1: "(v1, t) \<in> (set (edges g))\<^sup>*" and r2: "(v2, t) \<in> (set (edges g))\<^sup>*"
  shows "v1 = v2"
proof -
  have aux: "a = b" if ea: "(n, a) \<in> set (edges g)" and eb: "(n, b) \<in> set (edges g)"
    and ab: "(a, b) \<in> (set (edges g))\<^sup>*" for a b
  proof (rule ccontr)
    assume "a \<noteq> b"
    with ab have "(a, b) \<in> (set (edges g))\<^sup>+" by (blast dest: rtranclD)
    then obtain w where w: "(a, w) \<in> (set (edges g))\<^sup>*" "(w, b) \<in> set (edges g)"
      by (blast dest: tranclD2)
    from asexual_unique_pred[OF wf ax w(2) eb] w(1) have "(a, n) \<in> (set (edges g))\<^sup>*" by simp
    with ea have "(n, n) \<in> (set (edges g))\<^sup>+" by (rule rtrancl_into_trancl2)
    with ac show False by (simp add: acyclic_def)
  qed
  from ancestors_comparable[OF wf ax r1 r2] show ?thesis
  proof
    assume "(v1, v2) \<in> (set (edges g))\<^sup>*"
    from aux[OF e1 e2 this] show ?thesis .
  next
    assume "(v2, v1) \<in> (set (edges g))\<^sup>*"
    from aux[OF e2 e1 this] show ?thesis by simp
  qed
qed

lemma filter_single:
  assumes "distinct xs" and "x \<in> set xs" and "P x" and "\<forall>y\<in>set xs. P y \<longrightarrow> y = x"
  shows "filter P xs = [x]"
  using assms
proof (induction xs)
  case Nil
  then show ?case by simp
next
  case (Cons a xs)
  show ?case
  proof (cases "a = x")
    case True
    from Cons.prems(1) True have "x \<notin> set xs" by simp
    with Cons.prems(4) have "\<forall>y\<in>set xs. \<not> P y" by auto
    then have "filter P xs = []" by (simp add: filter_empty_conv)
    with True Cons.prems(3) show ?thesis by simp
  next
    case False
    from Cons.prems(2) False have 1: "x \<in> set xs" by simp
    from Cons.prems(4) False have 2: "\<not> P a" by auto
    from Cons.prems(1) have 3: "distinct xs" by simp
    from Cons.prems(4) have 4: "\<forall>y\<in>set xs. P y \<longrightarrow> y = x" by simp
    from Cons.IH[OF 3 1 Cons.prems(3) 4] 2 show ?thesis by simp
  qed
qed

lemma distinct_successors: "distinct (edges g) \<Longrightarrow> distinct (successors g n)"
proof -
  assume d: "distinct (edges g)"
  have "inj_on snd (set (filter (\<lambda>e. fst e = n) (edges g)))"
    by (rule inj_onI) (simp add: prod_eq_iff)
  with d show ?thesis unfolding successors_def by (simp add: distinct_map)
qed

lemma length_le1_if_subsingleton:
  assumes "distinct xs" and "\<And>a b. a \<in> set xs \<Longrightarrow> b \<in> set xs \<Longrightarrow> a = b"
  shows "length xs \<le> 1"
proof (cases xs)
  case Nil
  then show ?thesis by simp
next
  case (Cons a ys)
  have "ys = []"
  proof (cases ys)
    case Nil
    then show ?thesis .
  next
    case (Cons b zs)
    with \<open>xs = a # ys\<close> assms(2)[of a b] have "a = b" by simp
    with Cons \<open>xs = a # ys\<close> assms(1) show ?thesis by simp
  qed
  with Cons show ?thesis by simp
qed

lemma lineage_walk_unbranched:
  assumes "\<And>n. length (successors g n) \<le> 1"
  shows "lineage_walk fuel g ids = Some b \<Longrightarrow> b"
proof (induction fuel arbitrary: ids)
  case 0
  then show ?case by simp
next
  case (Suc fuel)
  have le: "\<not> 1 < length (successors g (last ids))" using assms[of "last ids"] by simp
  show ?case
  proof (cases "length (successors g (last ids)) = 0")
    case True
    with Suc.prems show ?thesis by simp
  next
    case False
    with Suc.prems le
    have "lineage_walk fuel g (ids @ [successors g (last ids) ! 0]) = Some b"
      by (simp add: Let_def)
    then show ?thesis by (rule Suc.IH)
  qed
qed

lemma ancestor_walk_ends_at_root:
  "ancestor_walk fuel g ids = Some r \<Longrightarrow> ids \<noteq> [] \<Longrightarrow> r \<noteq> [] \<and> predecessors g (last r) = []"
proof (induction fuel arbitrary: ids)
  case 0
  then show ?case by simp
next
  case (Suc fuel)
  show ?case
  proof (cases "predecessors g (last ids) = []")
    case True
    with Suc.prems show ?thesis by simp
  next
    case False
    with Suc.prems(1)
    have "ancestor_walk fuel g (ids @ [predecessors g (last ids) ! 0]) = Some r"
      by (simp add: Let_def)
    from Suc.IH[OF this] show ?thesis by simp
  qed
qed

lemma ancestor_in_nodes:
  assumes "wf_graph g" and "(y, t) \<in> (set (edges g))\<^sup>*" and "t \<in> set (node_ids g)"
  shows "y \<in> set (node_ids g)"
  using assms(2)
proof (cases rule: converse_rtranclE)
  case base
  with assms(3) show ?thesis by simp
next
  case (step z)
  with wf_graph_edge_nodes[OF assms(1)] show ?thesis by blast
qed

lemma set_iteration_set: "set (set_iteration slot xs) = set xs"
  by (simp add: set_iteration_def)

lemma set_iteration_distinct: "distinct (set_iteration slot xs)"
  by (simp add: set_iteration_def)

lemma node_ids_map_filter:
  assumes "set order \<subseteq> fst ` set ns"
  shows "map fst (List.map_filter (\<lambda>n. map_option (Pair n) (map_of ns n)) order) = order"
  using assms
proof (induction order)
  case Nil
  then show ?case by (simp add: List.map_filter_simps)
next
  case (Cons a order)
  from Cons.prems have "a \<in> fst ` set ns" by simp
  then obtain d where "map_of ns a = Some d"
    by (metis domD dom_map_of_conv_image_fst)
  with Cons show ?case by (simp add: List.map_filter_simps)
qed

lemma in_set_map_filter:
  "x \<in> set (List.map_filter f xs) \<longleftrightarrow> (\<exists>n\<in>set xs. f n = Some x)"
proof (induction xs)
  case Nil
  then show ?case by (simp add: List.map_filter_simps)
next
  case (Cons a xs)
  then show ?case by (cases "f a") (simp_all add: List.map_filter_simps, blast)
qed

lemma set_map_filter_nodes:
  assumes "distinct (map fst ns)"
  shows "set (List.map_filter (\<lambda>n. map_option (Pair n) (map_of ns n)) order)
         = {n \<in> set ns. fst n \<in> set order}"
proof (rule set_eqI)
  fix x :: "'a \<times> 'b"
  have m: "map_of ns (fst x) = Some (snd x) \<longleftrightarrow> (fst x, snd x) \<in> set ns"
    by (rule map_of_eq_Some_iff[OF assms])
  have "x \<in> set (List.map_filter (\<lambda>n. map_option (Pair n) (map_of ns n)) order)
      \<longleftrightarrow> (\<exists>n\<in>set order. map_option (Pair n) (map_of ns n) = Some x)"
    by (rule in_set_map_filter)
  also have "\<dots> \<longleftrightarrow> fst x \<in> set order \<and> map_of ns (fst x) = Some (snd x)"
  proof
    assume "\<exists>n\<in>set order. map_option (Pair n) (map_of ns n) = Some x"
    then obtain n where n: "n \<in> set order" "map_option (Pair n) (map_of ns n) = Some x" by blast
    from n(2) obtain d where "map_of ns n = Some d" "x = (n, d)" by (cases "map_of ns n") auto
    with n(1) show "fst x \<in> set order \<and> map_of ns (fst x) = Some (snd x)" by simp
  next
    assume a: "fst x \<in> set order \<and> map_of ns (fst x) = Some (snd x)"
    then have "map_option (Pair (fst x)) (map_of ns (fst x)) = Some x" by simp
    with a show "\<exists>n\<in>set order. map_option (Pair n) (map_of ns n) = Some x" by blast
  qed
  also have "\<dots> \<longleftrightarrow> x \<in> {n \<in> set ns. fst n \<in> set order}"
    unfolding m by simp blast
  finally show "x \<in> set (List.map_filter (\<lambda>n. map_option (Pair n) (map_of ns n)) order)
      \<longleftrightarrow> x \<in> {n \<in> set ns. fst n \<in> set order}" .
qed

lemma subgraph_props:
  assumes wf: "wf_graph g"
  shows "distinct (node_ids (subgraph slot g ids))"
    and "set (node_ids (subgraph slot g ids)) = set ids \<inter> set (node_ids g)"
    and "set (nodes (subgraph slot g ids)) = {n \<in> set (nodes g). fst n \<in> set ids}"
    and "edges (subgraph slot g ids)
           = filter (\<lambda>e. fst e \<in> set ids \<and> snd e \<in> set ids) (edges g)"
proof -
  define shown where "shown = filter (\<lambda>n. n \<in> set (node_ids g)) ids"
  define order where "order = (if 2 * length (remdups shown) < length (nodes g)
                         then set_iteration slot shown
                         else filter (\<lambda>n. n \<in> set shown) (node_ids g))"
  have sub: "subgraph slot g ids =
      \<lparr>nodes = List.map_filter (\<lambda>n. map_option (Pair n) (map_of (nodes g) n)) order,
       edges = filter (\<lambda>e. fst e \<in> set shown \<and> snd e \<in> set shown) (edges g)\<rparr>"
    by (simp add: subgraph_def Let_def shown_def order_def)
  have dn: "distinct (map fst (nodes g))" using wf by (simp add: wf_graph_def node_ids_def)
  have s: "set order = set ids \<inter> fst ` set (nodes g)"
    by (auto simp: order_def shown_def set_iteration_set node_ids_def)
  have d: "distinct order" using dn by (simp add: order_def set_iteration_distinct node_ids_def)
  have ids: "node_ids (subgraph slot g ids) = order"
    unfolding sub node_ids_def using node_ids_map_filter[of order "nodes g"] s by simp
  from ids d show "distinct (node_ids (subgraph slot g ids))" by simp
  from ids s show "set (node_ids (subgraph slot g ids)) = set ids \<inter> set (node_ids g)"
    by (simp add: node_ids_def)
  show "set (nodes (subgraph slot g ids)) = {n \<in> set (nodes g). fst n \<in> set ids}"
  proof -
    have "{n \<in> set (nodes g). fst n \<in> set order} = {n \<in> set (nodes g). fst n \<in> set ids}"
    proof (rule Collect_cong)
      fix n
      have "n \<in> set (nodes g) \<Longrightarrow> fst n \<in> fst ` set (nodes g)" by (rule imageI)
      then show "(n \<in> set (nodes g) \<and> fst n \<in> set order)
          = (n \<in> set (nodes g) \<and> fst n \<in> set ids)" unfolding s by blast
    qed
    then show ?thesis unfolding sub by (simp add: set_map_filter_nodes[OF dn])
  qed
  show "edges (subgraph slot g ids)
           = filter (\<lambda>e. fst e \<in> set ids \<and> snd e \<in> set ids) (edges g)"
  proof -
    have "filter (\<lambda>e. fst e \<in> set shown \<and> snd e \<in> set shown) (edges g)
        = filter (\<lambda>e. fst e \<in> set ids \<and> snd e \<in> set ids) (edges g)"
    proof (rule filter_cong[OF refl])
      fix e assume "e \<in> set (edges g)"
      then have "(fst e, snd e) \<in> set (edges g)" by simp
      from wf_graph_edge_nodes[OF wf this]
      show "(fst e \<in> set shown \<and> snd e \<in> set shown) = (fst e \<in> set ids \<and> snd e \<in> set ids)"
        by (simp add: shown_def)
    qed
    then show ?thesis by (simp add: sub)
  qed
qed

lemma distinct_concat_map_Pair:
  assumes "distinct us" and "\<And>u. distinct (F u)"
  shows "distinct (concat (map (\<lambda>u. map (Pair u) (F u)) us))"
  using assms(1)
proof (induction us)
  case Nil
  then show ?case by simp
next
  case (Cons a us)
  have "distinct (map (Pair a) (F a))" using assms(2)[of a] by (simp add: distinct_map inj_on_def)
  moreover have "set (map (Pair a) (F a)) \<inter> set (concat (map (\<lambda>u. map (Pair u) (F u)) us)) = {}"
    using Cons.prems by auto
  ultimately show ?case using Cons by simp
qed

lemma copy_props:
  assumes wf: "wf_graph g"
  shows "nodes (copy g) = nodes g" and "set (edges (copy g)) = set (edges g)"
    and "wf_graph (copy g)"
proof -
  show n: "nodes (copy g) = nodes g" by (simp add: copy_def)
  show e: "set (edges (copy g)) = set (edges g)"
    using wf_graph_edge_nodes[OF wf] by (auto simp: copy_def set_successors)
  have "distinct (edges (copy g))"
    unfolding copy_def graph.simps
    by (rule distinct_concat_map_Pair) (use wf in \<open>simp_all add: wf_graph_def distinct_successors\<close>)
  with wf n e show "wf_graph (copy g)"
    by (simp add: wf_graph_def node_ids_def list_all_iff)
qed

lemma wf_graph_subgraph:
  assumes wf: "wf_graph g"
  shows "wf_graph (subgraph slot g ids)"
proof -
  note p = subgraph_props[OF wf, of slot ids]
  have "fst e \<in> set (node_ids (subgraph slot g ids)) \<and> snd e \<in> set (node_ids (subgraph slot g ids))"
    if "e \<in> set (edges (subgraph slot g ids))" for e
  proof -
    from that have e: "(fst e, snd e) \<in> set (edges g)" and i: "fst e \<in> set ids" "snd e \<in> set ids"
      by (simp_all add: p(4))
    from wf_graph_edge_nodes[OF wf e] i show ?thesis by (simp add: p(2))
  qed
  moreover have "distinct (edges (subgraph slot g ids))"
    using wf by (simp add: p(4) wf_graph_def)
  ultimately show ?thesis using p(1) by (simp add: wf_graph_def list_all_iff)
qed

lemma ancestors_subgraph:
  assumes wf: "wf_graph g" and t: "t \<in> set (node_ids g)"
    and ids: "set ids = {y. (y, t) \<in> (set (edges g))\<^sup>*}"
  shows "wf_graph (copy (subgraph slot g ids))"
    and "set (node_ids (copy (subgraph slot g ids))) = {y. (y, t) \<in> (set (edges g))\<^sup>*}"
    and "set (nodes (copy (subgraph slot g ids)))
           = {n \<in> set (nodes g). (fst n, t) \<in> (set (edges g))\<^sup>*}"
    and "set (edges (copy (subgraph slot g ids)))
           = {e \<in> set (edges g). (snd e, t) \<in> (set (edges g))\<^sup>*}"
proof -
  let ?v = "subgraph slot g ids"
  note p = subgraph_props[OF wf, of slot ids]
  note c = copy_props[OF wf_graph_subgraph[OF wf, of slot ids]]
  show "wf_graph (copy ?v)" by (rule c(3))
  have sub: "set ids \<subseteq> set (node_ids g)"
    unfolding ids using ancestor_in_nodes[OF wf _ t] by blast
  have "set (node_ids (copy ?v)) = set ids \<inter> set (node_ids g)"
    using p(2) by (simp add: node_ids_def c(1))
  with sub show "set (node_ids (copy ?v)) = {y. (y, t) \<in> (set (edges g))\<^sup>*}"
    unfolding ids by blast
  show "set (nodes (copy ?v)) = {n \<in> set (nodes g). (fst n, t) \<in> (set (edges g))\<^sup>*}"
    by (simp add: c(1) p(3) ids)
  have "(fst e \<in> set ids \<and> snd e \<in> set ids) = ((snd e, t) \<in> (set (edges g))\<^sup>*)"
    if "e \<in> set (edges g)" for e
  proof -
    from that have "(fst e, snd e) \<in> set (edges g)" by simp
    then have "(snd e, t) \<in> (set (edges g))\<^sup>* \<Longrightarrow> (fst e, t) \<in> (set (edges g))\<^sup>*"
      by (rule converse_rtrancl_into_rtrancl)
    then show ?thesis unfolding ids by blast
  qed
  then show "set (edges (copy ?v)) = {e \<in> set (edges g). (snd e, t) \<in> (set (edges g))\<^sup>*}"
    unfolding c(2) p(4) by auto
qed

lemma extract_asexual_lineage_result:
  assumes wf: "wf_graph g" and ac: "acyclic (set (edges g))" and ax: "is_asexual g"
    and t: "taxa_id \<in> set (node_ids g)" and fuel: "length (nodes g) \<le> fuel"
  shows "\<exists>ids. ancestor_walk fuel g [taxa_id] = Some ids
     \<and> set ids = {y. (y, taxa_id) \<in> (set (edges g))\<^sup>*}
     \<and> extract_asexual_lineage slot fuel g taxa_id = Some (Inr (copy (subgraph slot g ids)))"
proof -
  have "card {y. (y, last [taxa_id]) \<in> (set (edges g))\<^sup>+} < fuel"
    using ancestors_bound[OF wf ac t] fuel by simp
  from ancestor_walk_terminates[OF ac this] obtain ids
    where ids: "ancestor_walk fuel g [taxa_id] = Some ids" by blast
  from ancestor_walk_visits[OF wf ax ids]
  have "set ids = {y. (y, taxa_id) \<in> (set (edges g))\<^sup>*}" by auto
  with ids t ax show ?thesis by (simp add: extract_asexual_lineage_def)
qed

lemma distinct_predecessors: "distinct (edges g) \<Longrightarrow> distinct (predecessors g n)"
proof -
  assume d: "distinct (edges g)"
  have "inj_on fst (set (filter (\<lambda>e. snd e = n) (edges g)))"
    by (rule inj_onI) (simp add: prod_eq_iff)
  with d show ?thesis unfolding predecessors_def by (simp add: distinct_map)
qed

lemma extracted_lineage_shape:
  assumes wf: "wf_graph g" and ac: "acyclic (set (edges g))" and ax: "is_asexual g"
    and t: "t \<in> set (node_ids g)"
    and wfs: "wf_graph sub"
    and ns: "set (node_ids sub) = {y. (y, t) \<in> (set (edges g))\<^sup>*}"
    and es: "set (edges sub) = {e \<in> set (edges g). (snd e, t) \<in> (set (edges g))\<^sup>*}"
  shows "acyclic (set (edges sub))" and "is_asexual sub"
    and "length (get_root_ids sub) = 1" and "length (successors sub n) \<le> 1"
proof -
  let ?E = "set (edges g)"
  have dn: "distinct (node_ids sub)" and de: "distinct (edges sub)"
    using wfs by (simp_all add: wf_graph_def)
  have preds: "set (predecessors sub m) = (if (m, t) \<in> ?E\<^sup>* then set (predecessors g m) else {})"
    for m
    by (simp add: set_predecessors es)
  have le1: "length (predecessors sub m) \<le> 1" for m
  proof (rule length_le1_if_subsingleton)
    show "distinct (predecessors sub m)" by (rule distinct_predecessors[OF de])
  next
    fix a b assume "a \<in> set (predecessors sub m)" "b \<in> set (predecessors sub m)"
    then have "(a, m) \<in> ?E" "(b, m) \<in> ?E" by (simp_all add: set_predecessors es)
    then show "a = b" by (rule asexual_unique_pred[OF wf ax])
  qed
  show "acyclic (set (edges sub))"
    by (rule acyclic_subset[OF ac]) (auto simp: es)
  show "is_asexual sub"
    using le1 by (simp add: is_asexual_def list_all_iff not_less)
  show "length (get_root_ids sub) = 1"
  proof -
    have "card {y. (y, last [t]) \<in> ?E\<^sup>+} < length (nodes g)"
      using ancestors_bound[OF wf ac t] by simp
    from ancestor_walk_terminates[OF ac this] obtain r
      where r: "ancestor_walk (length (nodes g)) g [t] = Some r" by blast
    from ancestor_walk_visits[OF wf ax r] have rset: "set r = {y. (y, t) \<in> ?E\<^sup>*}" by auto
    from ancestor_walk_ends_at_root[OF r] have rne: "r \<noteq> []" and root: "predecessors g (last r) = []"
      by simp_all
    from rne rset have anc: "(last r, t) \<in> ?E\<^sup>*" using last_in_set[of r] by blast
    have in_nodes: "last r \<in> set (node_ids sub)" using anc by (simp add: ns)
    have P: "length (predecessors sub y) = 0 \<longleftrightarrow> predecessors g y = []"
      if "(y, t) \<in> ?E\<^sup>*" for y
    proof -
      have "length (predecessors sub y) = 0 \<longleftrightarrow> set (predecessors sub y) = {}" by simp
      also have "\<dots> \<longleftrightarrow> set (predecessors g y) = {}" using that by (simp only: preds if_True)
      also have "\<dots> \<longleftrightarrow> predecessors g y = []" by simp
      finally show ?thesis .
    qed
    have uniq: "\<forall>y\<in>set (node_ids sub). length (predecessors sub y) = 0 \<longrightarrow> y = last r"
    proof (intro ballI impI)
      fix y assume "y \<in> set (node_ids sub)" and y0: "length (predecessors sub y) = 0"
      then have ya: "(y, t) \<in> ?E\<^sup>*" by (simp add: ns)
      with y0 have yr: "predecessors g y = []" by (simp only: P)
      from ancestors_comparable[OF wf ax ya anc]
      have "(y, last r) \<in> ?E\<^sup>* \<or> (last r, y) \<in> ?E\<^sup>*" .
      then show "y = last r"
      proof
        assume "(y, last r) \<in> ?E\<^sup>*"
        with ancestors_or_self_no_pred[OF root] show ?thesis by blast
      next
        assume lr: "(last r, y) \<in> ?E\<^sup>*"
        then have "last r \<in> {z. (z, y) \<in> ?E\<^sup>*}" by simp
        also from yr have "{z. (z, y) \<in> ?E\<^sup>*} = {y}" by (simp add: ancestors_or_self_no_pred)
        finally show ?thesis by simp
      qed
    qed
    have "length (predecessors sub (last r)) = 0" using root by (simp only: P[OF anc])
    from filter_single[OF dn in_nodes this uniq]
    show ?thesis by (simp add: get_root_ids_def)
  qed
  show "length (successors sub n) \<le> 1"
  proof (rule length_le1_if_subsingleton)
    show "distinct (successors sub n)" by (rule distinct_successors[OF de])
  next
    fix a b assume "a \<in> set (successors sub n)" "b \<in> set (successors sub n)"
    then have "(n, a) \<in> ?E" "(n, b) \<in> ?E" "(a, t) \<in> ?E\<^sup>*" "(b, t) \<in> ?E\<^sup>*"
      by (simp_all add: set_successors es)
    then show "a = b" by (rule one_child_among_ancestors[OF wf ax ac])
  qed
qed





lemma copy_in_props:
  shows "node_ids (topology (copy_in w g)) = node_ids g"
    and "edges (topology (copy_in w g)) = edges (copy g)"
    and "map snd (nodes (topology (copy_in w g)))
           = [next_free w ..< next_free w + length (nodes g)]"
    and "a < next_free w \<Longrightarrow> store (copy_in w g) a = store w a"
    and "\<forall>n\<in>set (nodes (topology (copy_in w g))).
           next_free w \<le> snd n \<and>
           (\<exists>a. (fst n, a) \<in> set (nodes g) \<and> store (copy_in w g) (snd n) = store w a)"
proof -
  let ?f = "next_free w" and ?k = "length (nodes g)"
  have top: "nodes (topology (copy_in w g)) = zip (node_ids g) [?f ..< ?f + ?k]"
    by (simp add: copy_in_def Let_def)
  have len: "length (node_ids g) = ?k" by (simp add: node_ids_def)
  show "node_ids (topology (copy_in w g)) = node_ids g"
    unfolding node_ids_def[of "topology (copy_in w g)"] top using len by simp
  show "edges (topology (copy_in w g)) = edges (copy g)" by (simp add: copy_in_def Let_def)
  show "map snd (nodes (topology (copy_in w g))) = [?f ..< ?f + ?k]"
    unfolding top using len by simp
  show "a < next_free w \<Longrightarrow> store (copy_in w g) a = store w a"
    by (simp add: copy_in_def Let_def)
  show "\<forall>n\<in>set (nodes (topology (copy_in w g))).
           ?f \<le> snd n \<and>
           (\<exists>a. (fst n, a) \<in> set (nodes g) \<and> store (copy_in w g) (snd n) = store w a)"
  proof
    fix n assume "n \<in> set (nodes (topology (copy_in w g)))"
    then obtain i where i: "i < ?k" and n: "n = (node_ids g ! i, ?f + i)"
      unfolding top using len by (auto simp: set_zip)
    have "store (copy_in w g) (?f + i) = store w (snd (nodes g ! i))"
      using i by (simp add: copy_in_def Let_def)
    moreover have "(node_ids g ! i, snd (nodes g ! i)) \<in> set (nodes g)"
      using i nth_mem[of i "nodes g"] by (simp add: node_ids_def)
    ultimately show "?f \<le> snd n \<and>
           (\<exists>a. (fst n, a) \<in> set (nodes g) \<and> store (copy_in w g) (snd n) = store w a)"
      unfolding n by auto
  qed
qed

lemma extract_asexual_lineage_in_topology:
  "map_option (map_sum id (\<lambda>r. (node_ids (topology r), edges (topology r))))
     (extract_asexual_lineage_in slot fuel w taxa_id)
   = map_option (map_sum id (\<lambda>r. (node_ids r, edges r)))
     (extract_asexual_lineage slot fuel (topology w) taxa_id)"
proof -
  have "node_ids (copy g) = node_ids g" for g :: "addr graph"
    by (simp add: node_ids_def copy_def)
  then show ?thesis
    by (simp add: extract_asexual_lineage_in_def extract_asexual_lineage_def copy_in_props(1,2)
        option.map_comp comp_def)
qed

subsection \<open>The extracted lineage\<close>




text \<open>
  C10. On a well-formed, acyclic, asexual graph that contains \<open>taxa_id\<close>, the graph
  returned by \<^verbatim>\<open>extract_asexual_lineage\<close> is well formed and asexual, has exactly one
  root, none of its nodes has more than one successor, and \<^verbatim>\<open>is_asexual_lineage\<close>
  returns true on it.
\<close>

theorem C10_extracted_lineage_is_asexual_lineage:
  assumes wf: "wf_graph g" and ac: "acyclic (set (edges g))" and ax: "is_asexual g"
    and t: "taxa_id \<in> set (node_ids g)" and fuel: "length (nodes g) \<le> fuel"
  shows "\<exists>sub. extract_asexual_lineage slot fuel g taxa_id = Some (Inr sub)
           \<and> wf_graph sub \<and> is_asexual sub \<and> get_num_roots sub = 1
           \<and> list_all (\<lambda>n. length (successors sub n) \<le> 1) (node_ids sub)
           \<and> is_asexual_lineage (length (nodes sub)) sub = Some True"
proof -
  from extract_asexual_lineage_result[OF wf ac ax t fuel, of slot] obtain ids
    where ids: "set ids = {y. (y, taxa_id) \<in> (set (edges g))\<^sup>*}"
      and ex0: "extract_asexual_lineage slot fuel g taxa_id = Some (Inr (copy (subgraph slot g ids)))"
    by blast
  define sub where "sub = copy (subgraph slot g ids)"
  note a = ancestors_subgraph[OF wf t ids, of slot, folded sub_def]
  note shape = a(1) extracted_lineage_shape[OF wf ac ax t a(1) a(2) a(4)]
  have ex: "extract_asexual_lineage slot fuel g taxa_id = Some (Inr sub)"
    unfolding sub_def by (rule ex0)
  from shape(4) obtain r where r: "get_root_ids sub = [r]"
    by (cases "get_root_ids sub") auto
  then have "r \<in> set (node_ids sub)" using root_in_nodes[of r sub] by simp
  then have "card {y. (last [r], y) \<in> (set (edges sub))\<^sup>+} < length (nodes sub)"
    using descendants_bound[OF shape(1,2)] by simp
  from lineage_walk_terminates[OF shape(2) this] obtain b
    where b: "lineage_walk (length (nodes sub)) sub [r] = Some b" by blast
  from lineage_walk_unbranched[OF shape(5) b] b have "lineage_walk (length (nodes sub)) sub [r] = Some True"
    by simp
  then have "is_asexual_lineage (length (nodes sub)) sub = Some True"
    by (simp add: is_asexual_lineage_def r)
  with ex shape(1,3,4) shape(5) show ?thesis
    by (auto simp: get_num_roots_def list_all_iff)
qed

theorem C10_extracted_lineage_witness:
  "wf_graph \<lparr>nodes = [(VInt 0, [(''origin_time'', VInt 0)]), (VInt 1, [(''origin_time'', VInt 1)]),
                (VInt 2, [(''origin_time'', VInt 2)]), (VInt 3, [(''origin_time'', VInt 3)]),
                (VInt 4, [(''origin_time'', VInt 4)])],
       edges = [(VInt 0, VInt 1), (VInt 1, VInt 2), (VInt 1, VInt 3), (VInt 3, VInt 4)]\<rparr>
   \<and> acyclic (set (edges \<lparr>nodes = [(VInt 0, [(''origin_time'', VInt 0)]), (VInt 1, [(''origin_time'', VInt 1)]),
                (VInt 2, [(''origin_time'', VInt 2)]), (VInt 3, [(''origin_time'', VInt 3)]),
                (VInt 4, [(''origin_time'', VInt 4)])],
       edges = [(VInt 0, VInt 1), (VInt 1, VInt 2), (VInt 1, VInt 3), (VInt 3, VInt 4)]\<rparr>))
   \<and> is_asexual \<lparr>nodes = [(VInt 0, [(''origin_time'', VInt 0)]), (VInt 1, [(''origin_time'', VInt 1)]),
                (VInt 2, [(''origin_time'', VInt 2)]), (VInt 3, [(''origin_time'', VInt 3)]),
                (VInt 4, [(''origin_time'', VInt 4)])],
       edges = [(VInt 0, VInt 1), (VInt 1, VInt 2), (VInt 1, VInt 3), (VInt 3, VInt 4)]\<rparr>
   \<and> VInt 4 \<in> set (node_ids \<lparr>nodes = [(VInt 0, [(''origin_time'', VInt 0)]), (VInt 1, [(''origin_time'', VInt 1)]),
                (VInt 2, [(''origin_time'', VInt 2)]), (VInt 3, [(''origin_time'', VInt 3)]),
                (VInt 4, [(''origin_time'', VInt 4)])],
       edges = [(VInt 0, VInt 1), (VInt 1, VInt 2), (VInt 1, VInt 3), (VInt 3, VInt 4)]\<rparr>)
   \<and> extract_asexual_lineage (\<lambda>v. 0) 5 \<lparr>nodes = [(VInt 0, [(''origin_time'', VInt 0)]), (VInt 1, [(''origin_time'', VInt 1)]),
                (VInt 2, [(''origin_time'', VInt 2)]), (VInt 3, [(''origin_time'', VInt 3)]),
                (VInt 4, [(''origin_time'', VInt 4)])],
       edges = [(VInt 0, VInt 1), (VInt 1, VInt 2), (VInt 1, VInt 3), (VInt 3, VInt 4)]\<rparr> (VInt 4) = Some (Inr
        \<lparr>nodes = [(VInt 0, [(''origin_time'', VInt 0)]), (VInt 1, [(''origin_time'', VInt 1)]),
                (VInt 3, [(''origin_time'', VInt 3)]), (VInt 4, [(''origin_time'', VInt 4)])],
       edges = [(VInt 0, VInt 1), (VInt 1, VInt 3), (VInt 3, VInt 4)]\<rparr>)
   \<and> is_asexual_lineage 4
        \<lparr>nodes = [(VInt 0, [(''origin_time'', VInt 0)]), (VInt 1, [(''origin_time'', VInt 1)]),
                (VInt 3, [(''origin_time'', VInt 3)]), (VInt 4, [(''origin_time'', VInt 4)])],
       edges = [(VInt 0, VInt 1), (VInt 1, VInt 3), (VInt 3, VInt 4)]\<rparr> = Some True
   \<and> is_asexual_lineage 5 \<lparr>nodes = [(VInt 0, [(''origin_time'', VInt 0)]), (VInt 1, [(''origin_time'', VInt 1)]),
                (VInt 2, [(''origin_time'', VInt 2)]), (VInt 3, [(''origin_time'', VInt 3)]),
                (VInt 4, [(''origin_time'', VInt 4)])],
       edges = [(VInt 0, VInt 1), (VInt 1, VInt 2), (VInt 1, VInt 3), (VInt 3, VInt 4)]\<rparr> = Some False"
proof -
  let ?t = "\<lparr>nodes = [(VInt 0, [(''origin_time'', VInt 0)]), (VInt 1, [(''origin_time'', VInt 1)]),
                (VInt 2, [(''origin_time'', VInt 2)]), (VInt 3, [(''origin_time'', VInt 3)]),
                (VInt 4, [(''origin_time'', VInt 4)])],
       edges = [(VInt 0, VInt 1), (VInt 1, VInt 2), (VInt 1, VInt 3), (VInt 3, VInt 4)]\<rparr> :: attrs graph"
  let ?u = "\<lparr>nodes = [(VInt 0, [(''origin_time'', VInt 0)]), (VInt 1, [(''origin_time'', VInt 1)]),
                (VInt 3, [(''origin_time'', VInt 3)]), (VInt 4, [(''origin_time'', VInt 4)])],
       edges = [(VInt 0, VInt 1), (VInt 1, VInt 3), (VInt 3, VInt 4)]\<rparr> :: attrs graph"
  have wf: "wf_graph ?t" by (simp add: wf_graph_def node_ids_def)
  have ac: "acyclic (set (edges ?t))"
    by (rule acyclic_ranked[where rank = "\<lambda>v. case v of VInt k \<Rightarrow> nat k | _ \<Rightarrow> 0"]) simp
  have ax: "is_asexual ?t" by (simp add: is_asexual_def node_ids_def predecessors_def)
  have t: "VInt 4 \<in> set (node_ids ?t)" and n: "length (nodes ?t) \<le> 5"
    by (simp_all add: node_ids_def)
  have val: "extract_asexual_lineage (\<lambda>v. 0) 5 ?t (VInt 4) = Some (Inr ?u)" by code_simp
  have whole: "is_asexual_lineage 5 ?t = Some False" by code_simp
  from C10_extracted_lineage_is_asexual_lineage[where slot = "\<lambda>v. 0", OF wf ac ax t n] val
  have "is_asexual_lineage (length (nodes ?u)) ?u = Some True" by simp
  then have "is_asexual_lineage 4 ?u = Some True" by (simp add: eval_nat_numeral)
  with wf ac ax t val whole show ?thesis by blast
qed

subsection \<open>Abstract lineages: the loop invariant\<close>

lemma map_of_last_entry:
  "k \<notin> fst ` set ns \<Longrightarrow> map_of (ns @ [(k, st)]) k = Some st"
  by (induction ns) auto

lemma update_last_entry:
  "k \<notin> fst ` set ns \<Longrightarrow> AList.update k v (ns @ [(k, st)]) = ns @ [(k, v)]"
  by (induction ns) auto

lemma update_fresh_key:
  "k \<notin> fst ` set ms \<Longrightarrow> AList.update k v ms = ms @ [(k, v)]"
  by (induction ms) auto

lemma getnode_last:
  "k \<notin> fst ` set ns \<Longrightarrow> getnode \<lparr>nodes = ns @ [(k, st)], edges = es\<rparr> k = Inr st"
  by (simp add: getnode_def map_of_last_entry del: map_of_append)

lemma setattr_last:
  "k \<notin> fst ` set ns \<Longrightarrow>
   setattr \<lparr>nodes = ns @ [(k, st)], edges = es\<rparr> k key v
     = Inr \<lparr>nodes = ns @ [(k, AList.update key v st)], edges = es\<rparr>"
  by (simp add: setattr_def map_of_last_entry update_last_entry del: map_of_append)

lemma project_present:
  "list_all (\<lambda>attr. map_of node attr \<noteq> None) attribute_list \<Longrightarrow>
   \<exists>ks. project node attribute_list = Inr ks"
  by (induction attribute_list) (auto simp: getitem_def ebind_def)

lemma copy_attrs_last:
  "k \<notin> fst ` set ns \<Longrightarrow> list_all (\<lambda>attr. map_of node attr \<noteq> None) attribute_list \<Longrightarrow>
   \<exists>st'. copy_attrs node attribute_list \<lparr>nodes = ns @ [(k, st)], edges = es\<rparr> k
           = Inr \<lparr>nodes = ns @ [(k, st')], edges = es\<rparr>
       \<and> (\<forall>key. key \<notin> set attribute_list \<longrightarrow> map_of st' key = map_of st key)"
proof (induction attribute_list arbitrary: st)
  case Nil
  then show ?case by simp
next
  case (Cons attr rest)
  from Cons.prems(2) obtain v where v: "map_of node attr = Some v" by auto
  from Cons.prems(2) have rest: "list_all (\<lambda>attr. map_of node attr \<noteq> None) rest" by simp
  from Cons.IH[OF Cons.prems(1) rest, of "AList.update attr (Val v) st"]
  obtain st' where st': "copy_attrs node rest
        \<lparr>nodes = ns @ [(k, AList.update attr (Val v) st)], edges = es\<rparr> k
           = Inr \<lparr>nodes = ns @ [(k, st')], edges = es\<rparr>"
    and keep: "\<forall>key. key \<notin> set rest \<longrightarrow> map_of st' key = map_of (AList.update attr (Val v) st) key"
    by blast
  have "copy_attrs node (attr # rest) \<lparr>nodes = ns @ [(k, st)], edges = es\<rparr> k
           = Inr \<lparr>nodes = ns @ [(k, st')], edges = es\<rparr>"
    using v st' Cons.prems(1) by (simp add: getitem_def ebind_def setattr_last)
  moreover have "\<forall>key. key \<notin> set (attr # rest) \<longrightarrow> map_of st' key = map_of st key"
    using keep by (simp add: update_conv')
  ultimately show ?case by blast
qed

lemma record_time_last:
  "k \<notin> fst ` set ns \<Longrightarrow> (track \<longrightarrow> map_of node attr \<noteq> None) \<Longrightarrow>
   \<exists>st'. record_time track node attr \<lparr>nodes = ns @ [(k, st)], edges = es\<rparr> k key
           = Inr \<lparr>nodes = ns @ [(k, st')], edges = es\<rparr>
       \<and> (\<forall>key'. key' \<noteq> key \<longrightarrow> map_of st' key' = map_of st key')"
  by (cases track) (auto simp: record_time_def getitem_def ebind_def setattr_last update_conv')

lemma add_new_state:
  assumes "k' \<notin> fst ` set N" and "k \<in> fst ` set N" and "(k, k') \<notin> set E"
  shows "add_edge (add_node \<lparr>nodes = N, edges = E\<rparr> k') k k'
           = \<lparr>nodes = N @ [(k', [])], edges = E @ [(k, k')]\<rparr>"
  using assms by (simp add: add_edge_def add_node_def node_ids_def Let_def)

lemma state_members_nonempty:
  "state_members st = ms \<Longrightarrow> ms \<noteq> [] \<Longrightarrow> map_of st ''members'' = Some (Members ms)"
  by (auto simp: state_members_def split: option.splits sval.splits)

lemma state_members_eq:
  "map_of st ''members'' = Some (Members ms) \<Longrightarrow> state_members st = ms"
  by (simp add: state_members_def)

lemma upto_snoc: "0 \<le> (sid::int) \<Longrightarrow> [0..sid] = [0..sid - 1] @ [sid]"
  by (simp add: upto_rec2)

lemma VInt_not_below: "VInt sid \<notin> set (map VInt [0..sid - 1])"
  by auto

lemma abs_invI:
  assumes "0 \<le> sid" and "map fst ns = map VInt [0..sid - 1]"
    and "map (\<lambda>n. state_members (snd n)) ns = gs" and "state_members st = ms"
    and "map (\<lambda>n. map_of (snd n) ''state_id'') ns = map (\<lambda>k. Some (Val (VInt k))) [0..sid - 1]"
    and "map_of st ''state_id'' = Some (Val (VInt sid))"
    and "list_all (\<lambda>m. m \<noteq> []) gs" and "ms \<noteq> []"
    and "project (snd (hd ms)) attribute_list = Inr ks"
    and "map_of st ''node_state'' = Some (NodeState ks)"
  shows "abs_inv attribute_list \<lparr>nodes = ns @ [(VInt sid, st)],
                  edges = map (\<lambda>k. (VInt k, VInt (k + 1))) [0..sid - 1]\<rparr> sid (gs @ [ms])"
  unfolding abs_inv_def
proof (intro exI conjI)
  show "\<lparr>nodes = ns @ [(VInt sid, st)], edges = map (\<lambda>k. (VInt k, VInt (k + 1))) [0..sid - 1]\<rparr>
      = \<lparr>nodes = ns @ [(VInt sid, st)], edges = map (\<lambda>k. (VInt k, VInt (k + 1))) [0..sid - 1]\<rparr>"
    by (rule refl)
  show "gs @ [ms] = gs @ [ms]" by (rule refl)
  show "list_all (\<lambda>m. m \<noteq> []) (gs @ [ms])" using assms(7,8) by simp
qed (use assms in blast)+

lemma abstract_step_inv:
  assumes inv: "abs_inv attribute_list A sid groups"
    and node: "map_of (nodes L) s = Some a"
    and fresh: "s \<notin> fst ` set (last groups)"
    and attrs: "list_all (\<lambda>attr. map_of a attr \<noteq> None) attribute_list"
    and res: "''node_state'' \<notin> set attribute_list" "''members'' \<notin> set attribute_list"
      "''state_id'' \<notin> set attribute_list"
    and t_o: "t_o \<longrightarrow> map_of a oa \<noteq> None" and t_d: "t_d \<longrightarrow> map_of a da \<noteq> None"
  shows "\<exists>sid' A' groups'.
           abstract_step L attribute_list t_o t_d oa da s sid A = Inr (sid', A')
         \<and> abs_inv attribute_list A' sid' groups'
         \<and> groups' = extend_groups attribute_list groups (s, a)
         \<and> concat groups' = concat groups @ [(s, a)]"
proof -
  let ?es = "map (\<lambda>k. (VInt k, VInt (k + 1))) [0..sid - 1]"
  from inv obtain ns st gs ms where
    A: "A = \<lparr>nodes = ns @ [(VInt sid, st)], edges = ?es\<rparr>"
    and g: "groups = gs @ [ms]" and sid0: "0 \<le> sid"
    and ids: "map fst ns = map VInt [0..sid - 1]"
    and mem: "map (\<lambda>n. state_members (snd n)) ns = gs" "state_members st = ms"
    and sids: "map (\<lambda>n. map_of (snd n) ''state_id'') ns
                 = map (\<lambda>k. Some (Val (VInt k))) [0..sid - 1]"
    and sidst: "map_of st ''state_id'' = Some (Val (VInt sid))"
    and ne: "list_all (\<lambda>m. m \<noteq> []) groups"
    and nst: "\<exists>ks. project (snd (hd ms)) attribute_list = Inr ks \<and>
              map_of st ''node_state'' = Some (NodeState ks)"
    unfolding abs_inv_def by blast
  have fresh_k: "VInt sid \<notin> fst ` set ns"
    using VInt_not_below[of sid] ids by (metis set_map)
  from project_present[OF attrs] obtain ks where ks: "project a attribute_list = Inr ks" by blast
  from nst obtain ks0 where p0: "project (snd (hd ms)) attribute_list = Inr ks0"
    and v: "map_of st ''node_state'' = Some (NodeState ks0)" by blast
  have lastg: "last groups = ms" "butlast groups = gs" by (simp_all add: g)
  have getn: "getnode L s = Inr a" by (simp add: getnode_def node)
  have getA: "getnode A (VInt sid) = Inr st" unfolding A by (simp add: getnode_last fresh_k)
  from ne g have msne: "ms \<noteq> []" and gsne: "list_all (\<lambda>m. m \<noteq> []) gs" by simp_all
  have mm: "map_of st ''members'' = Some (Members ms)"
    by (rule state_members_nonempty[OF mem(2) msne])
  have it: "getitem st ''node_state'' = Inr (NodeState ks0)"
    "getitem st ''members'' = Inr (Members ms)"
    by (simp_all add: getitem_def v mm)
  show ?thesis
  proof (cases "ks0 = ks")
    case True
    let ?st1 = "AList.update ''members'' (Members (AList.update s a ms)) st"
    from record_time_last[OF fresh_k t_d, of ?st1 ?es "''destruction_time''"]
    obtain st2 where rt: "record_time t_d a da \<lparr>nodes = ns @ [(VInt sid, ?st1)], edges = ?es\<rparr>
          (VInt sid) ''destruction_time'' = Inr \<lparr>nodes = ns @ [(VInt sid, st2)], edges = ?es\<rparr>"
      and keep: "\<forall>key'. key' \<noteq> ''destruction_time'' \<longrightarrow> map_of st2 key' = map_of ?st1 key'"
      by blast
    have sa: "setattr A (VInt sid) ''members'' (Members (AList.update s a ms))
        = Inr \<lparr>nodes = ns @ [(VInt sid, ?st1)], edges = ?es\<rparr>"
      unfolding A by (rule setattr_last[OF fresh_k])
    have step: "abstract_step L attribute_list t_o t_d oa da s sid A
        = Inr (sid, \<lparr>nodes = ns @ [(VInt sid, st2)], edges = ?es\<rparr>)"
      unfolding abstract_step_def
      by (simp add: getn ks getA ebind_def it True sa rt)
    have upd: "AList.update s a ms = ms @ [(s, a)]"
      using fresh g by (simp add: update_fresh_key)
    have k1: "map_of st2 ''members'' = Some (Members (ms @ [(s, a)]))"
      using keep by (simp add: update_conv' upd)
    have k2: "map_of st2 ''state_id'' = Some (Val (VInt sid))"
      using keep sidst by (simp add: update_conv')
    have k3: "map_of st2 ''node_state'' = Some (NodeState ks0)"
      using keep v by (simp add: update_conv')
    have p1: "project (snd (hd (ms @ [(s, a)]))) attribute_list = Inr ks0"
      using p0 msne by simp
    have "abs_inv attribute_list \<lparr>nodes = ns @ [(VInt sid, st2)], edges = ?es\<rparr> sid
            (gs @ [ms @ [(s, a)]])"
      by (rule abs_invI[OF sid0 ids mem(1) state_members_eq[OF k1] sids k2 gsne _ p1 k3]) simp
    moreover have "gs @ [ms @ [(s, a)]] = extend_groups attribute_list groups (s, a)"
      using True p0 ks by (simp add: extend_groups_def lastg)
    moreover have "concat (gs @ [ms @ [(s, a)]]) = concat groups @ [(s, a)]"
      by (simp add: g)
    ultimately show ?thesis using step by blast
  next
    case False
    let ?k = "VInt (sid + 1)"
    let ?ns' = "ns @ [(VInt sid, st)]"
    let ?es' = "?es @ [(VInt sid, ?k)]"
    have ids': "map fst ?ns' = map VInt [0..sid + 1 - 1]"
      using ids by (simp add: upto_snoc[OF sid0])
    have fresh_k': "?k \<notin> fst ` set ?ns'"
      using VInt_not_below[of "sid + 1"] ids' by (metis set_map)
    have in_k: "VInt sid \<in> fst ` set ?ns'" by simp
    have no_edge: "(VInt sid, ?k) \<notin> set ?es" by auto
    have new: "add_edge (add_node A ?k) (VInt (sid + 1 - 1)) ?k
        = \<lparr>nodes = ?ns' @ [(?k, [])], edges = ?es'\<rparr>"
      unfolding A using add_new_state[OF fresh_k' in_k no_edge] by simp
    let ?st0 = "AList.update ''state_id'' (Val ?k) []"
    let ?st1 = "AList.update ''node_state'' (NodeState ks) ?st0"
    from record_time_last[OF fresh_k' t_o, of ?st1 ?es' "''origin_time''"]
    obtain st2 where rt: "record_time t_o a oa \<lparr>nodes = ?ns' @ [(?k, ?st1)], edges = ?es'\<rparr>
          ?k ''origin_time'' = Inr \<lparr>nodes = ?ns' @ [(?k, st2)], edges = ?es'\<rparr>"
      and keep2: "\<forall>key'. key' \<noteq> ''origin_time'' \<longrightarrow> map_of st2 key' = map_of ?st1 key'"
      by blast
    from copy_attrs_last[OF fresh_k' attrs, of st2 ?es']
    obtain st3 where ca: "copy_attrs a attribute_list \<lparr>nodes = ?ns' @ [(?k, st2)], edges = ?es'\<rparr> ?k
           = Inr \<lparr>nodes = ?ns' @ [(?k, st3)], edges = ?es'\<rparr>"
      and keep3: "\<forall>key. key \<notin> set attribute_list \<longrightarrow> map_of st3 key = map_of st2 key"
      by blast
    let ?st4 = "AList.update ''members'' (Members [(s, a)]) st3"
    have s0: "setattr \<lparr>nodes = ?ns' @ [(?k, [])], edges = ?es'\<rparr> ?k ''state_id'' (Val ?k)
        = Inr \<lparr>nodes = ?ns' @ [(?k, ?st0)], edges = ?es'\<rparr>"
      by (rule setattr_last[OF fresh_k'])
    have s1: "setattr \<lparr>nodes = ?ns' @ [(?k, ?st0)], edges = ?es'\<rparr> ?k ''node_state'' (NodeState ks)
        = Inr \<lparr>nodes = ?ns' @ [(?k, ?st1)], edges = ?es'\<rparr>"
      by (rule setattr_last[OF fresh_k'])
    have s4: "setattr \<lparr>nodes = ?ns' @ [(?k, st3)], edges = ?es'\<rparr> ?k ''members'' (Members [(s, a)])
        = Inr \<lparr>nodes = ?ns' @ [(?k, ?st4)], edges = ?es'\<rparr>"
      by (rule setattr_last[OF fresh_k'])
    have step: "abstract_step L attribute_list t_o t_d oa da s sid A
        = Inr (sid + 1, \<lparr>nodes = ?ns' @ [(?k, ?st4)], edges = ?es'\<rparr>)"
      unfolding abstract_step_def Let_def
      by (simp only: getn ks getA ebind_def it False new s0 s1 rt ca s4 sum.case if_False
          sval.inject)
    have es': "?es' = map (\<lambda>k. (VInt k, VInt (k + 1))) [0..sid + 1 - 1]"
      by (simp add: upto_snoc[OF sid0])
    have k1: "map_of ?st4 ''members'' = Some (Members [(s, a)])"
      by (simp add: update_conv')
    have k2: "map_of ?st4 ''state_id'' = Some (Val ?k)"
      using keep2 keep3 res by (simp add: update_conv')
    have k3: "map_of ?st4 ''node_state'' = Some (NodeState ks)"
      using keep2 keep3 res by (simp add: update_conv')
    have m': "map (\<lambda>n. state_members (snd n)) ?ns' = groups"
      using mem g by simp
    have sids': "map (\<lambda>n. map_of (snd n) ''state_id'') ?ns'
                 = map (\<lambda>k. Some (Val (VInt k))) [0..sid + 1 - 1]"
      using sids sidst by (simp add: upto_snoc[OF sid0])
    have sid1: "0 \<le> sid + 1" using sid0 by simp
    have p1: "project (snd (hd [(s, a)])) attribute_list = Inr ks" using ks by simp
    have "abs_inv attribute_list \<lparr>nodes = ?ns' @ [(?k, ?st4)], edges = ?es'\<rparr> (sid + 1)
            (groups @ [[(s, a)]])"
      unfolding es'
      by (rule abs_invI[OF sid1 ids' m' state_members_eq[OF k1] sids' k2 ne _ p1 k3]) simp
    moreover have "groups @ [[(s, a)]] = extend_groups attribute_list groups (s, a)"
      using False p0 ks by (simp add: extend_groups_def lastg)
    moreover have "concat (groups @ [[(s, a)]]) = concat groups @ [(s, a)]" by simp
    ultimately show ?thesis using step by blast
  qed
qed

lemma open_root_state_inv:
  assumes node: "map_of (nodes L) root = Some a"
    and attrs: "list_all (\<lambda>attr. map_of a attr \<noteq> None) attribute_list"
    and res: "''node_state'' \<notin> set attribute_list" "''members'' \<notin> set attribute_list"
      "''state_id'' \<notin> set attribute_list"
    and t_o: "t_o \<longrightarrow> map_of a oa \<noteq> None" and t_d: "t_d \<longrightarrow> map_of a da \<noteq> None"
  shows "\<exists>A. open_root_state L attribute_list t_o t_d oa da root = Inr A
           \<and> abs_inv attribute_list A 0 [[(root, a)]]"
proof -
  let ?k = "VInt 0"
  let ?ns = "[] :: (pyval \<times> sattrs) list"
  let ?es = "[] :: (pyval \<times> pyval) list"
  have fresh: "?k \<notin> fst ` set ?ns" by simp
  from project_present[OF attrs] obtain ks where ks: "project a attribute_list = Inr ks" by blast
  have getn: "getnode L root = Inr a" by (simp add: getnode_def node)
  have an: "add_node \<lparr>nodes = [], edges = []\<rparr> ?k = \<lparr>nodes = ?ns @ [(?k, [])], edges = ?es\<rparr>"
    by (simp add: add_node_def node_ids_def)
  let ?st0 = "AList.update ''state_id'' (Val ?k) []"
  let ?st1 = "AList.update ''node_state'' (NodeState ks) ?st0"
  have s0: "setattr \<lparr>nodes = ?ns @ [(?k, [])], edges = ?es\<rparr> ?k ''state_id'' (Val ?k)
        = Inr \<lparr>nodes = ?ns @ [(?k, ?st0)], edges = ?es\<rparr>"
    by (rule setattr_last[OF fresh])
  have s1: "setattr \<lparr>nodes = ?ns @ [(?k, ?st0)], edges = ?es\<rparr> ?k ''node_state'' (NodeState ks)
        = Inr \<lparr>nodes = ?ns @ [(?k, ?st1)], edges = ?es\<rparr>"
    by (rule setattr_last[OF fresh])
  from copy_attrs_last[OF fresh attrs, of ?st1 ?es]
  obtain st2 where ca: "copy_attrs a attribute_list \<lparr>nodes = ?ns @ [(?k, ?st1)], edges = ?es\<rparr> ?k
           = Inr \<lparr>nodes = ?ns @ [(?k, st2)], edges = ?es\<rparr>"
    and keep2: "\<forall>key. key \<notin> set attribute_list \<longrightarrow> map_of st2 key = map_of ?st1 key"
    by blast
  from record_time_last[OF fresh t_o, of st2 ?es "''origin_time''"]
  obtain st3 where rt3: "record_time t_o a oa \<lparr>nodes = ?ns @ [(?k, st2)], edges = ?es\<rparr>
          ?k ''origin_time'' = Inr \<lparr>nodes = ?ns @ [(?k, st3)], edges = ?es\<rparr>"
    and keep3: "\<forall>key'. key' \<noteq> ''origin_time'' \<longrightarrow> map_of st3 key' = map_of st2 key'"
    by blast
  from record_time_last[OF fresh t_d, of st3 ?es "''destruction_time''"]
  obtain st4 where rt4: "record_time t_d a da \<lparr>nodes = ?ns @ [(?k, st3)], edges = ?es\<rparr>
          ?k ''destruction_time'' = Inr \<lparr>nodes = ?ns @ [(?k, st4)], edges = ?es\<rparr>"
    and keep4: "\<forall>key'. key' \<noteq> ''destruction_time'' \<longrightarrow> map_of st4 key' = map_of st3 key'"
    by blast
  let ?st5 = "AList.update ''members'' (Members [(root, a)]) st4"
  have s5: "setattr \<lparr>nodes = ?ns @ [(?k, st4)], edges = ?es\<rparr> ?k ''members'' (Members [(root, a)])
        = Inr \<lparr>nodes = ?ns @ [(?k, ?st5)], edges = ?es\<rparr>"
    by (rule setattr_last[OF fresh])
  have run: "open_root_state L attribute_list t_o t_d oa da root
        = Inr \<lparr>nodes = ?ns @ [(?k, ?st5)], edges = ?es\<rparr>"
    unfolding open_root_state_def
    by (simp only: an s0 getn ks s1 ca rt3 rt4 s5 ebind_def sum.case)
  have k1: "map_of ?st5 ''members'' = Some (Members [(root, a)])"
    by (simp add: update_conv')
  have k2: "map_of ?st5 ''state_id'' = Some (Val ?k)"
    using keep2 keep3 keep4 res by (simp add: update_conv')
  have k3: "map_of ?st5 ''node_state'' = Some (NodeState ks)"
    using keep2 keep3 keep4 res by (simp add: update_conv')
  have p1: "project (snd (hd [(root, a)])) attribute_list = Inr ks" using ks by simp
  have "abs_inv attribute_list \<lparr>nodes = ?ns @ [(?k, ?st5)],
                  edges = map (\<lambda>k. (VInt k, VInt (k + 1))) [0..0 - 1]\<rparr> 0 ([] @ [[(root, a)]])"
    by (rule abs_invI[OF _ _ _ state_members_eq[OF k1] _ k2 _ _ p1 k3]) simp_all
  then have "abs_inv attribute_list \<lparr>nodes = ?ns @ [(?k, ?st5)], edges = ?es\<rparr> 0 [[(root, a)]]"
    by simp
  with run show ?thesis by blast
qed

lemma singleton_first:
  "length xs \<le> 1 \<Longrightarrow> xs \<noteq> [] \<Longrightarrow> set xs = {xs ! 0}"
  by (cases xs) auto

lemma lineage_walk_true_unbranched:
  "lineage_walk fuel g ids = Some True \<Longrightarrow> (last ids, x) \<in> (set (edges g))\<^sup>* \<Longrightarrow>
   length (successors g x) \<le> 1"
proof (induction fuel arbitrary: ids)
  case 0
  then show ?case by simp
next
  case (Suc fuel)
  let ?succ = "successors g (last ids)"
  from Suc.prems(1) have le: "length ?succ \<le> 1"
    by (auto simp: Let_def split: if_splits)
  show ?case
  proof (cases "x = last ids")
    case True
    with le show ?thesis by simp
  next
    case False
    with Suc.prems(2) obtain z where z: "(last ids, z) \<in> set (edges g)" "(z, x) \<in> (set (edges g))\<^sup>*"
      by (auto elim: converse_rtranclE)
    from z(1) have zin: "z \<in> set ?succ" by (simp add: set_successors)
    then have ne: "?succ \<noteq> []" by auto
    from singleton_first[OF le ne] zin have zeq: "z = ?succ ! 0" by simp
    from Suc.prems(1) ne le have "lineage_walk fuel g (ids @ [?succ ! 0]) = Some True"
      by (auto simp: Let_def split: if_splits)
    from Suc.IH[OF this] z(2) zeq show ?thesis by simp
  qed
qed

lemma all_reachable_from_root:
  assumes wf: "wf_graph g" and ac: "acyclic (set (edges g))" and r: "get_root_ids g = [r]"
  shows "x \<in> set (node_ids g) \<Longrightarrow> (r, x) \<in> (set (edges g))\<^sup>*"
proof -
  have wfE: "wf (set (edges g))" by (rule finite_acyclic_wf[OF _ ac]) simp
  show "x \<in> set (node_ids g) \<Longrightarrow> (r, x) \<in> (set (edges g))\<^sup>*"
  proof (induction x rule: wf_induct_rule[OF wfE])
    case (1 x)
    show ?case
    proof (cases "predecessors g x = []")
      case True
      with "1.prems" have "x \<in> set (get_root_ids g)" by (simp add: get_root_ids_def)
      with r show ?thesis by simp
    next
      case False
      from first_predecessor_edge[OF False] obtain p where p: "(p, x) \<in> set (edges g)" by blast
      with wf_graph_edge_nodes[OF wf] have "p \<in> set (node_ids g)" by blast
      from "1.IH"[OF p this] p show ?thesis by (rule rtrancl_into_rtrancl)
    qed
  qed
qed

lemma reachable_in_nodes:
  assumes "wf_graph g" and "r \<in> set (node_ids g)" and "(r, x) \<in> (set (edges g))\<^sup>*"
  shows "x \<in> set (node_ids g)"
  using assms(3)
proof (cases rule: rtranclE)
  case base
  with assms(2) show ?thesis by simp
next
  case (step y)
  with wf_graph_edge_nodes[OF assms(1)] show ?thesis by blast
qed

lemma node_attrs_exist:
  "s \<in> set (node_ids g) \<Longrightarrow> \<exists>a. map_of (nodes g) s = Some a"
  by (cases "map_of (nodes g) s") (auto simp: node_ids_def map_of_eq_None_iff)

lemma no_successors_no_descendants:
  "successors g n = [] \<Longrightarrow> {y. (n, y) \<in> (set (edges g))\<^sup>+} = {}"
  by (auto simp: successors_Nil dest: tranclD)

lemma only_child_descendants:
  assumes "set (successors g n) = {s}"
  shows "{y. (n, y) \<in> (set (edges g))\<^sup>+} = insert s {y. (s, y) \<in> (set (edges g))\<^sup>+}"
proof -
  have e: "(n, z) \<in> set (edges g) \<longleftrightarrow> z = s" for z
    using assms by (auto simp: set_successors)
  have "y = s \<or> (s, y) \<in> (set (edges g))\<^sup>+" if "(n, y) \<in> (set (edges g))\<^sup>+" for y
  proof -
    from tranclD[OF that] obtain z where "(n, z) \<in> set (edges g)" "(z, y) \<in> (set (edges g))\<^sup>*"
      by blast
    with e have "(s, y) \<in> (set (edges g))\<^sup>*" by simp
    then show ?thesis by (auto dest: rtranclD)
  qed
  moreover have "(n, s) \<in> (set (edges g))\<^sup>+" using e by auto
  moreover have "(n, y) \<in> (set (edges g))\<^sup>+" if "(s, y) \<in> (set (edges g))\<^sup>+" for y
  proof -
    have "(n, s) \<in> set (edges g)" using e by simp
    then show ?thesis using that by (rule trancl_into_trancl2)
  qed
  ultimately show ?thesis by auto
qed

lemma abstract_walk_inv:
  assumes wf: "wf_graph L" and ac: "acyclic (set (edges L))"
    and unb: "\<And>x. (root, x) \<in> (set (edges L))\<^sup>* \<Longrightarrow> length (successors L x) \<le> 1"
    and all_attrs: "all_taxa_have_attributes L attribute_list"
    and res: "''node_state'' \<notin> set attribute_list" "''members'' \<notin> set attribute_list"
      "''state_id'' \<notin> set attribute_list"
    and t_o: "t_o \<longrightarrow> all_taxa_have_attribute L oa"
    and t_d: "t_d \<longrightarrow> all_taxa_have_attribute L da"
  shows "abs_inv attribute_list A sid groups \<Longrightarrow> set (concat groups) \<subseteq> set (nodes L) \<Longrightarrow>
     map_of (nodes L) n = Some an \<Longrightarrow>
     last (map fst (concat groups)) = n \<Longrightarrow> (root, n) \<in> (set (edges L))\<^sup>* \<Longrightarrow>
     (\<forall>v\<in>set (map fst (concat groups)). (v, n) \<in> (set (edges L))\<^sup>*) \<Longrightarrow>
     distinct (map fst (concat groups)) \<Longrightarrow>
     card {y. (n, y) \<in> (set (edges L))\<^sup>+} < fuel \<Longrightarrow>
     \<exists>A' sid' groups' rest.
        abstract_walk fuel L attribute_list t_o t_d oa da n sid A = Some (Inr A')
      \<and> lineage_chain fuel L n = Some ((n, an) # rest)
      \<and> groups' = foldl (extend_groups attribute_list) groups rest
      \<and> abs_inv attribute_list A' sid' groups' \<and> set (concat groups') \<subseteq> set (nodes L)
      \<and> distinct (map fst (concat groups'))
      \<and> set (map fst (concat groups'))
          = set (map fst (concat groups)) \<union> {y. (n, y) \<in> (set (edges L))\<^sup>+}"
proof (induction fuel arbitrary: A sid groups n an)
  case 0
  then show ?case by simp
next
  case (Suc fuel)
  let ?E = "set (edges L)"
  let ?V = "map fst (concat groups)"
  show ?case
  proof (cases "successors L n = []")
    case True
    have "abstract_walk (Suc fuel) L attribute_list t_o t_d oa da n sid A = Some (Inr A)"
      using True by simp
    moreover have "lineage_chain (Suc fuel) L n = Some ((n, an) # [])"
      using True Suc.prems(3) by simp
    moreover have "groups = foldl (extend_groups attribute_list) groups []" by simp
    moreover have "set ?V = set ?V \<union> {y. (n, y) \<in> ?E\<^sup>+}"
      using no_successors_no_descendants[OF True] by simp
    ultimately show ?thesis using Suc.prems(1,2,7) by blast
  next
    case False
    let ?s = "successors L n ! 0"
    have edge: "(n, ?s) \<in> ?E" by (rule first_successor_edge[OF False])
    have sset: "set (successors L n) = {?s}"
      by (rule singleton_first[OF unb[OF Suc.prems(5)] False])
    from wf_graph_edge_nodes[OF wf edge] have "?s \<in> set (node_ids L)" by simp
    from node_attrs_exist[OF this] obtain a where a: "map_of (nodes L) ?s = Some a" by blast
    then have ain: "(?s, a) \<in> set (nodes L)" by (rule map_of_SomeD)
    with all_attrs have attrs: "list_all (\<lambda>attr. map_of a attr \<noteq> None) attribute_list"
      by (auto simp: all_taxa_have_attributes_def list_all_iff)
    from ain t_o have to': "t_o \<longrightarrow> map_of a oa \<noteq> None"
      by (auto simp: all_taxa_have_attribute_def list_all_iff)
    from ain t_d have td': "t_d \<longrightarrow> map_of a da \<noteq> None"
      by (auto simp: all_taxa_have_attribute_def list_all_iff)
    have notin: "?s \<notin> set ?V"
    proof
      assume "?s \<in> set ?V"
      with Suc.prems(6) have "(?s, n) \<in> ?E\<^sup>*" by blast
      with edge have "(n, n) \<in> ?E\<^sup>+" by (rule rtrancl_into_trancl2)
      with ac show False by (simp add: acyclic_def)
    qed
    from Suc.prems(1) obtain gs ms where g: "groups = gs @ [ms]"
      unfolding abs_inv_def by blast
    have fresh: "?s \<notin> fst ` set (last groups)"
      using notin by (auto simp: g)
    from abstract_step_inv[OF Suc.prems(1) a fresh attrs res to' td']
    obtain sid' A' groups' where
      step: "abstract_step L attribute_list t_o t_d oa da ?s sid A = Inr (sid', A')"
      and inv': "abs_inv attribute_list A' sid' groups'"
      and ext: "groups' = extend_groups attribute_list groups (?s, a)"
      and cat: "concat groups' = concat groups @ [(?s, a)]"
      by blast
    have V': "map fst (concat groups') = ?V @ [?s]" by (simp add: cat)
    have 2: "set (concat groups') \<subseteq> set (nodes L)" using Suc.prems(2) ain by (simp add: cat)
    have 3: "last (map fst (concat groups')) = ?s" by (simp add: V')
    have 4: "(root, ?s) \<in> ?E\<^sup>*" using Suc.prems(5) edge by (rule rtrancl_into_rtrancl)
    have 5: "\<forall>v\<in>set (map fst (concat groups')). (v, ?s) \<in> ?E\<^sup>*"
    proof
      fix v assume "v \<in> set (map fst (concat groups'))"
      then have "v = ?s \<or> v \<in> set ?V" by (auto simp: V')
      then show "(v, ?s) \<in> ?E\<^sup>*"
      proof
        assume "v = ?s" then show ?thesis by simp
      next
        assume "v \<in> set ?V"
        with Suc.prems(6) have "(v, n) \<in> ?E\<^sup>*" by blast
        then show ?thesis using edge by (rule rtrancl_into_rtrancl)
      qed
    qed
    have 6: "distinct (map fst (concat groups'))"
      using Suc.prems(7) notin by (simp add: V')
    have 7: "card {y. (?s, y) \<in> ?E\<^sup>+} < fuel"
      using descendants_decrease[OF ac edge] Suc.prems(8) by simp
    from Suc.IH[OF inv' 2 a 3 4 5 6 7]
    obtain A'' sid'' groups'' rest where
      w: "abstract_walk fuel L attribute_list t_o t_d oa da ?s sid' A' = Some (Inr A'')"
      and ch: "lineage_chain fuel L ?s = Some ((?s, a) # rest)"
      and fo: "groups'' = foldl (extend_groups attribute_list) groups' rest"
      and i: "abs_inv attribute_list A'' sid'' groups''"
      and n'': "set (concat groups'') \<subseteq> set (nodes L)"
      and d: "distinct (map fst (concat groups''))"
      and c: "set (map fst (concat groups''))
          = set (map fst (concat groups')) \<union> {y. (?s, y) \<in> ?E\<^sup>+}"
      by blast
    have "abstract_walk (Suc fuel) L attribute_list t_o t_d oa da n sid A = Some (Inr A'')"
      using False step w by (simp add: Let_def)
    moreover have "lineage_chain (Suc fuel) L n = Some ((n, an) # (?s, a) # rest)"
      using False Suc.prems(3) ch by (simp add: Let_def)
    moreover have "groups'' = foldl (extend_groups attribute_list) groups ((?s, a) # rest)"
      using fo ext by simp
    moreover have "set (map fst (concat groups''))
          = set ?V \<union> {y. (n, y) \<in> ?E\<^sup>+}"
      unfolding c V' only_child_descendants[OF sset] by auto
    ultimately show ?thesis using i n'' d by blast
  qed
qed

lemma abs_inv_shape:
  assumes "abs_inv attribute_list A sid groups"
  shows "int (length (nodes A)) = sid + 1"
    and "node_ids A = map VInt [0..sid]"
    and "edges A = map (\<lambda>k. (VInt k, VInt (k + 1))) [0..sid - 1]"
    and "map (\<lambda>n. state_members (snd n)) (nodes A) = groups"
    and "list_all (\<lambda>m. m \<noteq> []) groups"
    and "map (\<lambda>n. map_of (snd n) ''state_id'') (nodes A) = map (\<lambda>k. Some (Val (VInt k))) [0..sid]"
proof -
  from assms obtain ns st gs ms where
    A: "A = \<lparr>nodes = ns @ [(VInt sid, st)], edges = map (\<lambda>k. (VInt k, VInt (k + 1))) [0..sid - 1]\<rparr>"
    and g: "groups = gs @ [ms]" and sid0: "0 \<le> sid"
    and ids: "map fst ns = map VInt [0..sid - 1]"
    and mem: "map (\<lambda>n. state_members (snd n)) ns = gs" "state_members st = ms"
    and sids: "map (\<lambda>n. map_of (snd n) ''state_id'') ns
                 = map (\<lambda>k. Some (Val (VInt k))) [0..sid - 1]"
    and sidst: "map_of st ''state_id'' = Some (Val (VInt sid))"
    and ne: "list_all (\<lambda>m. m \<noteq> []) groups"
    unfolding abs_inv_def by blast
  have "length ns = length (map VInt [0..sid - 1])" using ids by (metis length_map)
  then have "int (length ns) = sid" using sid0 by simp
  then show "int (length (nodes A)) = sid + 1" by (simp add: A)
  show "node_ids A = map VInt [0..sid]"
    using ids by (simp add: A node_ids_def upto_snoc[OF sid0])
  show "edges A = map (\<lambda>k. (VInt k, VInt (k + 1))) [0..sid - 1]" by (simp add: A)
  show "map (\<lambda>n. state_members (snd n)) (nodes A) = groups" using mem by (simp add: A g)
  show "list_all (\<lambda>m. m \<noteq> []) groups" by (rule ne)
  show "map (\<lambda>n. map_of (snd n) ''state_id'') (nodes A) = map (\<lambda>k. Some (Val (VInt k))) [0..sid]"
    using sids sidst by (simp add: A upto_snoc[OF sid0])
qed


lemma abstract_asexual_lineage_spec:
  assumes wf: "wf_graph lineage" and ac: "acyclic (set (edges lineage))"
    and fuel: "length (nodes lineage) \<le> fuel"
    and lin: "is_asexual_lineage fuel lineage = Some True"
    and attrs: "all_taxa_have_attributes lineage attribute_list"
    and res: "''node_state'' \<notin> set attribute_list" "''members'' \<notin> set attribute_list"
      "''state_id'' \<notin> set attribute_list"
  shows "\<exists>al sid root a rest.
       get_root_ids lineage = [root]
     \<and> lineage_chain fuel lineage root = Some ((root, a) # rest)
     \<and> abstract_asexual_lineage fuel lineage attribute_list origin_time_attr
          destruction_time_attr = Some (Inr al)
     \<and> abs_inv attribute_list al sid (foldl (extend_groups attribute_list) [[(root, a)]] rest)
     \<and> set (concat (foldl (extend_groups attribute_list) [[(root, a)]] rest))
          \<subseteq> set (nodes lineage)
     \<and> distinct (map fst (concat (foldl (extend_groups attribute_list) [[(root, a)]] rest)))
     \<and> set (map fst (concat (foldl (extend_groups attribute_list) [[(root, a)]] rest)))
          = set (node_ids lineage)"
proof -
  let ?E = "set (edges lineage)"
  let ?t_o = "all_taxa_have_attribute lineage origin_time_attr"
  let ?t_d = "all_taxa_have_attribute lineage destruction_time_attr"
  from lin obtain root where roots: "get_root_ids lineage = [root]"
    by (cases "get_root_ids lineage"; cases "tl (get_root_ids lineage)")
      (auto simp: is_asexual_lineage_def Let_def split: if_splits)
  with lin have walk: "lineage_walk fuel lineage [root] = Some True"
    by (simp add: is_asexual_lineage_def)
  have unb: "\<And>x. (root, x) \<in> ?E\<^sup>* \<Longrightarrow> length (successors lineage x) \<le> 1"
    using lineage_walk_true_unbranched[OF walk] by simp
  have rin: "root \<in> set (node_ids lineage)"
    using roots root_in_nodes[of root lineage] by simp
  from node_attrs_exist[OF rin] obtain a where a: "map_of (nodes lineage) root = Some a" by blast
  then have ain: "(root, a) \<in> set (nodes lineage)" by (rule map_of_SomeD)
  with attrs have al: "list_all (\<lambda>attr. map_of a attr \<noteq> None) attribute_list"
    by (auto simp: all_taxa_have_attributes_def list_all_iff)
  from ain have to': "?t_o \<longrightarrow> map_of a origin_time_attr \<noteq> None"
    by (auto simp: all_taxa_have_attribute_def list_all_iff)
  from ain have td': "?t_d \<longrightarrow> map_of a destruction_time_attr \<noteq> None"
    by (auto simp: all_taxa_have_attribute_def list_all_iff)
  from open_root_state_inv[OF a al res to' td']
  obtain A0 where open0: "open_root_state lineage attribute_list ?t_o ?t_d origin_time_attr
        destruction_time_attr root = Inr A0"
    and inv0: "abs_inv attribute_list A0 0 [[(root, a)]]"
    by blast
  have c: "card {y. (root, y) \<in> ?E\<^sup>+} < fuel"
    using descendants_bound[OF wf ac rin] fuel by simp
  have "\<exists>A' sid' groups' rest.
        abstract_walk fuel lineage attribute_list ?t_o ?t_d origin_time_attr destruction_time_attr
          root 0 A0 = Some (Inr A')
      \<and> lineage_chain fuel lineage root = Some ((root, a) # rest)
      \<and> groups' = foldl (extend_groups attribute_list) [[(root, a)]] rest
      \<and> abs_inv attribute_list A' sid' groups' \<and> set (concat groups') \<subseteq> set (nodes lineage)
      \<and> distinct (map fst (concat groups'))
      \<and> set (map fst (concat groups'))
          = set (map fst (concat [[(root, a)]])) \<union> {y. (root, y) \<in> ?E\<^sup>+}"
    by (rule abstract_walk_inv[OF wf ac unb attrs res _ _ inv0 _ a _ _ _ _ c])
      (use ain in auto)
  then obtain A' sid' groups' rest where
    w: "abstract_walk fuel lineage attribute_list ?t_o ?t_d origin_time_attr destruction_time_attr
          root 0 A0 = Some (Inr A')"
    and ch: "lineage_chain fuel lineage root = Some ((root, a) # rest)"
    and fo: "groups' = foldl (extend_groups attribute_list) [[(root, a)]] rest"
    and inv: "abs_inv attribute_list A' sid' groups'"
    and real: "set (concat groups') \<subseteq> set (nodes lineage)"
    and d: "distinct (map fst (concat groups'))"
    and cover: "set (map fst (concat groups')) = insert root {y. (root, y) \<in> ?E\<^sup>+}"
    by auto
  have run: "abstract_asexual_lineage fuel lineage attribute_list origin_time_attr
                destruction_time_attr = Some (Inr A')"
    using lin attrs res roots open0 w by (simp add: abstract_asexual_lineage_def Let_def)
  have all: "set (map fst (concat groups')) = set (node_ids lineage)"
  proof
    show "set (node_ids lineage) \<subseteq> set (map fst (concat groups'))"
    proof
      fix t assume "t \<in> set (node_ids lineage)"
      from all_reachable_from_root[OF wf ac roots this] have "(root, t) \<in> ?E\<^sup>*" .
      then have "t = root \<or> (root, t) \<in> ?E\<^sup>+" by (auto dest: rtranclD)
      then show "t \<in> set (map fst (concat groups'))" unfolding cover by blast
    qed
    show "set (map fst (concat groups')) \<subseteq> set (node_ids lineage)"
      using real by (auto simp: node_ids_def)
  qed
  from roots ch run inv real d all show ?thesis unfolding fo by blast
qed




text \<open>
  C5. A chain of six taxa (any distinct ids, any attribute dictionaries) whose
  \<^verbatim>\<open>trait\<close> values are \<open>x, x, y, y, y, z\<close> with \<open>x \<noteq> y\<close> and \<open>y \<noteq> z\<close>, abstracted
  over \<^verbatim>\<open>["trait"]\<close>, gives exactly three states: their ids and \<^verbatim>\<open>state_id\<close> values
  are 0, 1, 2, their members are the first two, the next three and the last taxon (sizes
  2, 3, 1), and the edges are exactly \<open>0 \<rightarrow> 1\<close> and \<open>1 \<rightarrow> 2\<close>.
\<close>

theorem C5_abstraction_example:
  assumes d: "distinct [n0, n1, n2, n3, n4, n5]"
    and t: "map_of a0 ''trait'' = Some x" "map_of a1 ''trait'' = Some x"
      "map_of a2 ''trait'' = Some y" "map_of a3 ''trait'' = Some y"
      "map_of a4 ''trait'' = Some y" "map_of a5 ''trait'' = Some z"
    and xy: "x \<noteq> y" and yz: "y \<noteq> z"
  shows "\<exists>al. abstract_asexual_lineage 6
            \<lparr>nodes = [(n0, a0), (n1, a1), (n2, a2), (n3, a3), (n4, a4), (n5, a5)],
             edges = [(n0, n1), (n1, n2), (n2, n3), (n3, n4), (n4, n5)]\<rparr>
            [''trait''] origin_time_attr destruction_time_attr = Some (Inr al)
     \<and> node_ids al = [VInt 0, VInt 1, VInt 2]
     \<and> map (\<lambda>n. map_of (snd n) ''state_id'') (nodes al)
         = [Some (Val (VInt 0)), Some (Val (VInt 1)), Some (Val (VInt 2))]
     \<and> edges al = [(VInt 0, VInt 1), (VInt 1, VInt 2)]
     \<and> map (\<lambda>n. state_members (snd n)) (nodes al)
         = [[(n0, a0), (n1, a1)], [(n2, a2), (n3, a3), (n4, a4)], [(n5, a5)]]
     \<and> map (\<lambda>n. length (state_members (snd n))) (nodes al) = [2, 3, 1]"
proof -
  let ?L = "\<lparr>nodes = [(n0, a0), (n1, a1), (n2, a2), (n3, a3), (n4, a4), (n5, a5)],
             edges = [(n0, n1), (n1, n2), (n2, n3), (n3, n4), (n4, n5)]\<rparr>"
  have ne: "n0 \<noteq> n1" "n0 \<noteq> n2" "n0 \<noteq> n3" "n0 \<noteq> n4" "n0 \<noteq> n5"
    "n1 \<noteq> n2" "n1 \<noteq> n3" "n1 \<noteq> n4" "n1 \<noteq> n5" "n2 \<noteq> n3" "n2 \<noteq> n4" "n2 \<noteq> n5"
    "n3 \<noteq> n4" "n3 \<noteq> n5" "n4 \<noteq> n5"
    using d by simp_all
  note ne = ne ne[symmetric]
  have wf: "wf_graph ?L" by (simp add: wf_graph_def node_ids_def ne)
  have ac: "acyclic (set (edges ?L))"
    by (rule acyclic_ranked[where rank = "\<lambda>v. if v = n0 then 0 else if v = n1 then 1
          else if v = n2 then 2 else if v = n3 then 3 else if v = n4 then 4 else 5"])
      (simp add: ne)
  have n: "length (nodes ?L) \<le> 6" by simp
  have roots: "get_root_ids ?L = [n0]"
    by (simp add: get_root_ids_def node_ids_def predecessors_def ne)
  have succ: "successors ?L n0 = [n1]" "successors ?L n1 = [n2]" "successors ?L n2 = [n3]"
    "successors ?L n3 = [n4]" "successors ?L n4 = [n5]" "successors ?L n5 = []"
    by (simp_all add: successors_def ne)
  have lin: "is_asexual_lineage 6 ?L = Some True"
    by (simp add: is_asexual_lineage_def roots succ eval_nat_numeral)
  have attrs: "all_taxa_have_attributes ?L [''trait'']"
    by (simp add: all_taxa_have_attributes_def t)
  have res: "''node_state'' \<notin> set [''trait'']" "''members'' \<notin> set [''trait'']"
    "''state_id'' \<notin> set [''trait'']"
    by simp_all
  have look: "map_of (nodes ?L) n0 = Some a0" "map_of (nodes ?L) n1 = Some a1"
    "map_of (nodes ?L) n2 = Some a2" "map_of (nodes ?L) n3 = Some a3"
    "map_of (nodes ?L) n4 = Some a4" "map_of (nodes ?L) n5 = Some a5"
    by (simp_all add: ne)
  have chain: "lineage_chain 6 ?L n0
      = Some [(n0, a0), (n1, a1), (n2, a2), (n3, a3), (n4, a4), (n5, a5)]"
    by (simp add: eval_nat_numeral look succ del: graph.simps)
  have proj: "project a0 [''trait''] = Inr [x]" "project a1 [''trait''] = Inr [x]"
    "project a2 [''trait''] = Inr [y]" "project a3 [''trait''] = Inr [y]"
    "project a4 [''trait''] = Inr [y]" "project a5 [''trait''] = Inr [z]"
    by (simp_all add: getitem_def ebind_def t)
  have e1: "extend_groups [''trait''] [[(n0, a0)]] (n1, a1) = [[(n0, a0), (n1, a1)]]"
    by (simp add: extend_groups_def proj del: project.simps)
  have e2: "extend_groups [''trait''] [[(n0, a0), (n1, a1)]] (n2, a2)
      = [[(n0, a0), (n1, a1)], [(n2, a2)]]"
    using xy by (simp add: extend_groups_def proj del: project.simps)
  have e3: "extend_groups [''trait''] [[(n0, a0), (n1, a1)], [(n2, a2)]] (n3, a3)
      = [[(n0, a0), (n1, a1)], [(n2, a2), (n3, a3)]]"
    by (simp add: extend_groups_def proj del: project.simps)
  have e4: "extend_groups [''trait''] [[(n0, a0), (n1, a1)], [(n2, a2), (n3, a3)]] (n4, a4)
      = [[(n0, a0), (n1, a1)], [(n2, a2), (n3, a3), (n4, a4)]]"
    by (simp add: extend_groups_def proj del: project.simps)
  have e5: "extend_groups [''trait''] [[(n0, a0), (n1, a1)], [(n2, a2), (n3, a3), (n4, a4)]]
        (n5, a5)
      = [[(n0, a0), (n1, a1)], [(n2, a2), (n3, a3), (n4, a4)], [(n5, a5)]]"
    using yz by (simp add: extend_groups_def proj del: project.simps)
  have runs: "foldl (extend_groups [''trait'']) [[(n0, a0)]]
        [(n1, a1), (n2, a2), (n3, a3), (n4, a4), (n5, a5)]
      = [[(n0, a0), (n1, a1)], [(n2, a2), (n3, a3), (n4, a4)], [(n5, a5)]]"
    by (simp only: foldl.simps e1 e2 e3 e4 e5)
  from abstract_asexual_lineage_spec[OF wf ac n lin attrs res, of origin_time_attr
      destruction_time_attr]
  obtain al sid root a rest where
    r: "get_root_ids ?L = [root]"
    and ch: "lineage_chain 6 ?L root = Some ((root, a) # rest)"
    and run: "abstract_asexual_lineage 6 ?L [''trait''] origin_time_attr destruction_time_attr
        = Some (Inr al)"
    and inv: "abs_inv [''trait''] al sid (foldl (extend_groups [''trait'']) [[(root, a)]] rest)"
    by blast
  from r roots have root: "root = n0" by simp
  from ch chain have "a = a0" "rest = [(n1, a1), (n2, a2), (n3, a3), (n4, a4), (n5, a5)]"
    by (simp_all add: root)
  with inv have "abs_inv [''trait''] al sid (foldl (extend_groups [''trait'']) [[(n0, a0)]]
        [(n1, a1), (n2, a2), (n3, a3), (n4, a4), (n5, a5)])"
    by (simp only: root)
  then have inv': "abs_inv [''trait''] al sid
      [[(n0, a0), (n1, a1)], [(n2, a2), (n3, a3), (n4, a4)], [(n5, a5)]]"
    by (simp only: runs)
  note shape = abs_inv_shape[OF inv']
  have "length (map (\<lambda>n. state_members (snd n)) (nodes al)) = 3"
    unfolding shape(4) by simp
  then have "length (nodes al) = 3" by simp
  with shape(1) have sid: "sid = 2" by simp
  have up: "[0..2::int] = [0, 1, 2]" "[0..1::int] = [0, 1]"
    by (simp_all add: upto_rec1)
  have lens: "map (\<lambda>n. length (state_members (snd n))) (nodes al) = [2, 3, 1]"
  proof -
    have "map (\<lambda>n. length (state_members (snd n))) (nodes al)
        = map length (map (\<lambda>n. state_members (snd n)) (nodes al))" by (simp add: comp_def)
    then show ?thesis unfolding shape(4) by simp
  qed
  have ids: "node_ids al = [VInt 0, VInt 1, VInt 2]" using shape(2) by (simp add: sid up)
  have sids: "map (\<lambda>n. map_of (snd n) ''state_id'') (nodes al)
         = [Some (Val (VInt 0)), Some (Val (VInt 1)), Some (Val (VInt 2))]"
    using shape(6) by (simp add: sid up)
  have es: "edges al = [(VInt 0, VInt 1), (VInt 1, VInt 2)]"
    using shape(3) by (simp add: sid up)
  show ?thesis by (intro exI[of _ al] conjI run ids sids es shape(4) lens)
qed

theorem C5_abstraction_example_witness:
  "distinct [VStr ''t0'', VStr ''t1'', VStr ''t2'', VStr ''t3'', VStr ''t4'', VStr ''t5'']
   \<and> map_of [(''trait'', VStr ''x''), (''origin_time'', VInt 0)] ''trait'' = Some (VStr ''x'')
   \<and> map_of [(''trait'', VStr ''x''), (''origin_time'', VInt 1)] ''trait'' = Some (VStr ''x'')
   \<and> map_of [(''trait'', VStr ''y''), (''origin_time'', VInt 2)] ''trait'' = Some (VStr ''y'')
   \<and> map_of [(''trait'', VStr ''y''), (''origin_time'', VInt 3)] ''trait'' = Some (VStr ''y'')
   \<and> map_of [(''trait'', VStr ''y''), (''origin_time'', VInt 4)] ''trait'' = Some (VStr ''y'')
   \<and> map_of [(''trait'', VStr ''z''), (''origin_time'', VInt 5)] ''trait'' = Some (VStr ''z'')
   \<and> VStr ''x'' \<noteq> VStr ''y''
   \<and> VStr ''y'' \<noteq> VStr ''z''
   \<and> (\<exists>al. abstract_asexual_lineage 6
            \<lparr>nodes = [(VStr ''t0'', [(''trait'', VStr ''x''), (''origin_time'', VInt 0)]),
                      (VStr ''t1'', [(''trait'', VStr ''x''), (''origin_time'', VInt 1)]),
                      (VStr ''t2'', [(''trait'', VStr ''y''), (''origin_time'', VInt 2)]),
                      (VStr ''t3'', [(''trait'', VStr ''y''), (''origin_time'', VInt 3)]),
                      (VStr ''t4'', [(''trait'', VStr ''y''), (''origin_time'', VInt 4)]),
                      (VStr ''t5'', [(''trait'', VStr ''z''), (''origin_time'', VInt 5)])],
             edges = [(VStr ''t0'', VStr ''t1''), (VStr ''t1'', VStr ''t2''), (VStr ''t2'', VStr ''t3''), (VStr ''t3'', VStr ''t4''), (VStr ''t4'', VStr ''t5'')]\<rparr>
            [''trait''] ''origin_time'' ''destruction_time'' = Some (Inr al)
     \<and> node_ids al = [VInt 0, VInt 1, VInt 2]
     \<and> map (\<lambda>n. map_of (snd n) ''state_id'') (nodes al)
         = [Some (Val (VInt 0)), Some (Val (VInt 1)), Some (Val (VInt 2))]
     \<and> edges al = [(VInt 0, VInt 1), (VInt 1, VInt 2)]
     \<and> map (\<lambda>n. state_members (snd n)) (nodes al)
         = [[(VStr ''t0'', [(''trait'', VStr ''x''), (''origin_time'', VInt 0)]),
             (VStr ''t1'', [(''trait'', VStr ''x''), (''origin_time'', VInt 1)])],
            [(VStr ''t2'', [(''trait'', VStr ''y''), (''origin_time'', VInt 2)]),
             (VStr ''t3'', [(''trait'', VStr ''y''), (''origin_time'', VInt 3)]),
             (VStr ''t4'', [(''trait'', VStr ''y''), (''origin_time'', VInt 4)])],
            [(VStr ''t5'', [(''trait'', VStr ''z''), (''origin_time'', VInt 5)])]]
     \<and> map (\<lambda>n. length (state_members (snd n))) (nodes al) = [2, 3, 1])"
proof -
  have d: "distinct [VStr ''t0'', VStr ''t1'', VStr ''t2'', VStr ''t3'', VStr ''t4'', VStr ''t5'']" by simp
  have t0: "map_of [(''trait'', VStr ''x''), (''origin_time'', VInt 0)] ''trait'' = Some (VStr ''x'')" by simp
  have t1: "map_of [(''trait'', VStr ''x''), (''origin_time'', VInt 1)] ''trait'' = Some (VStr ''x'')" by simp
  have t2: "map_of [(''trait'', VStr ''y''), (''origin_time'', VInt 2)] ''trait'' = Some (VStr ''y'')" by simp
  have t3: "map_of [(''trait'', VStr ''y''), (''origin_time'', VInt 3)] ''trait'' = Some (VStr ''y'')" by simp
  have t4: "map_of [(''trait'', VStr ''y''), (''origin_time'', VInt 4)] ''trait'' = Some (VStr ''y'')" by simp
  have t5: "map_of [(''trait'', VStr ''z''), (''origin_time'', VInt 5)] ''trait'' = Some (VStr ''z'')" by simp
  have xy: "VStr ''x'' \<noteq> VStr ''y''" and yz: "VStr ''y'' \<noteq> VStr ''z''" by simp_all
  note c = C5_abstraction_example[OF d t0 t1 t2 t3 t4 t5 xy yz, of "''origin_time''"
      "''destruction_time''"]
  show ?thesis by (intro conjI d t0 t1 t2 t3 t4 t5 xy yz c)
qed

end
